theory Spec2Isabelle
  imports Complex_Main "HOL-Library.Word" "HOL-Library.Char_ord" "HOL-Library.List_Lexorder"
begin

unbundle bit_operations_syntax

section \<open>JavaScript values used by the program\<close>

text \<open>
  A JavaScript number that results from a division or from reading a missing array slot may
  be \<open>NaN\<close>; a finite number is modelled by the rational it denotes. Every comparison with
  \<open>NaN\<close> is false.
\<close>

datatype jsnum = NaN | Num rat

definition js_le :: "jsnum \<Rightarrow> rat \<Rightarrow> bool" where
  "js_le a t = (case a of NaN \<Rightarrow> False | Num q \<Rightarrow> q \<le> t)"

text \<open>\<open>v || d\<close> on an optional number: a missing value and \<open>0\<close> are falsy.\<close>

definition num_or :: "rat option \<Rightarrow> rat \<Rightarrow> rat" where
  "num_or v d = (case v of None \<Rightarrow> d | Some q \<Rightarrow> if q = 0 then d else q)"

subsection \<open>Double-precision arithmetic\<close>

text \<open>
  The result of a division, multiplication or subtraction of two numbers is the double
  nearest to the exact result, with ties going to the even significand. \<open>binade q\<close> is
  the exponent \<open>e\<close> with \<open>2 ^ e \<le> q < 2 ^ (e + 1)\<close> for a positive \<open>q\<close>, and the doubles of
  that binade are the multiples of \<open>2 ^ (e - 52)\<close>. Overflow and subnormal numbers are not
  modelled: the numbers rounded below are percentages and ratios of lengths and pixel
  counts.
\<close>

fun ilog2 :: "nat \<Rightarrow> nat" where
  "ilog2 n = (if n < 2 then 0 else Suc (ilog2 (n div 2)))"

declare ilog2.simps [simp del]

definition binade :: "rat \<Rightarrow> int" where
  "binade q =
     (if 1 \<le> q then int (ilog2 (nat \<lfloor>q\<rfloor>))
      else - int (let n = nat \<lceil>1 / q\<rceil> in if n \<le> 1 then 0 else Suc (ilog2 (n - 1))))"

definition pow2 :: "int \<Rightarrow> rat" where
  "pow2 k = (if 0 \<le> k then 2 ^ nat k else 1 / 2 ^ nat (- k))"

definition round_even :: "rat \<Rightarrow> int" where
  "round_even q =
     (let f = \<lfloor>q\<rfloor>; r = q - of_int f
      in if r < 1 / 2 then f else if 1 / 2 < r then f + 1 else if even f then f else f + 1)"

definition double :: "rat \<Rightarrow> rat" where
  "double q =
     (if q = 0 then 0
      else (let a = \<bar>q\<bar>; u = pow2 (binade a - 52)
            in sgn q * of_int (round_even (a / u)) * u))"

text \<open>
  A property of an object literal: the key is missing, or it is present with the value
  \<open>undefined\<close>, or it is present with a value. Spreading an object over defaults replaces
  the default of every key that is present, also of one whose value is \<open>undefined\<close>.
  Reading the property gives \<open>undefined\<close> (\<open>None\<close>) in the first two cases.
\<close>

datatype 'a property = Missing | Undefined | Present 'a

definition spread_over :: "'a \<Rightarrow> 'a property \<Rightarrow> 'a property" where
  "spread_over d p = (case p of Missing \<Rightarrow> Present d | Undefined \<Rightarrow> Undefined | Present v \<Rightarrow> Present v)"

definition read_property :: "'a property \<Rightarrow> 'a option" where
  "read_property p = (case p of Present v \<Rightarrow> Some v | _ \<Rightarrow> None)"

text \<open>
  \<open>a < b\<close> for a whole number \<open>a\<close> and a value \<open>b\<close> that may be \<open>undefined\<close> or \<open>NaN\<close>
  (\<open>undefined\<close> converts to \<open>NaN\<close>).
\<close>

definition js_less :: "int \<Rightarrow> jsnum option \<Rightarrow> bool" where
  "js_less a b = (case b of Some (Num q) \<Rightarrow> of_int a < q | _ \<Rightarrow> False)"

section \<open>Pixel comparator (src/core/comparator.ts)\<close>

text \<open>A decoded PNG: dimensions and the RGBA byte buffer.\<close>

record png =
  width :: nat
  height :: nat
  data :: "8 word list"

record comparator =
  threshold :: rat
  pixelThreshold :: rat

record ComparisonResult =
  isMatch :: bool
  diffPercentage :: jsnum
  diffPixels :: nat
  totalPixels :: nat
  diffImagePath :: "string option"

text \<open>
  The constructor: \<open>options.threshold || 0.1\<close>, \<open>options.pixelThreshold || 10\<close>. The
  literal \<open>0.1\<close> denotes the double nearest to one tenth.
\<close>

definition new_comparator :: "rat option \<Rightarrow> rat option \<Rightarrow> comparator" where
  "new_comparator t p =
     \<lparr>threshold = num_or t (double (1 / 10)), pixelThreshold = num_or p 10\<rparr>"

text \<open>
  \<open>(baseline.width * y + x) << 2\<close>: the shift works on the 32-bit integer value of its
  operand and yields a signed 32-bit integer.
\<close>

definition pixel_idx :: "nat \<Rightarrow> nat \<Rightarrow> nat \<Rightarrow> int" where
  "pixel_idx w x y = sint (push_bit 2 (word_of_nat (w * y + x) :: 32 word))"

text \<open>Reading a byte buffer: an index outside the buffer gives \<open>undefined\<close> (here \<open>None\<close>).\<close>

definition buf_read :: "8 word list \<Rightarrow> int \<Rightarrow> nat option" where
  "buf_read buf i =
     (if 0 \<le> i \<and> i < int (length buf) then Some (unat (buf ! nat i)) else None)"

text \<open>Writing a byte buffer: a write outside the buffer is ignored, \<open>undefined\<close> is stored as 0.\<close>

definition buf_write :: "8 word list \<Rightarrow> int \<Rightarrow> nat option \<Rightarrow> 8 word list" where
  "buf_write buf i v =
     (if 0 \<le> i \<and> i < int (length buf)
      then buf[nat i := (case v of None \<Rightarrow> 0 | Some n \<Rightarrow> word_of_nat n)]
      else buf)"

text \<open>\<open>Math.abs(a - b)\<close> on two buffer reads; \<open>None\<close> stands for \<open>NaN\<close>.\<close>

definition abs_diff :: "nat option \<Rightarrow> nat option \<Rightarrow> nat option" where
  "abs_diff a b =
     (case a of None \<Rightarrow> None
      | Some m \<Rightarrow> (case b of None \<Rightarrow> None
                   | Some n \<Rightarrow> Some (if m \<le> n then n - m else m - n)))"

text \<open>\<open>Math.max\<close> of two numbers: \<open>NaN\<close> if either is.\<close>

definition js_max :: "nat option \<Rightarrow> nat option \<Rightarrow> nat option" where
  "js_max a b =
     (case a of None \<Rightarrow> None
      | Some m \<Rightarrow> (case b of None \<Rightarrow> None | Some n \<Rightarrow> Some (max m n)))"

definition pixelDiff :: "png \<Rightarrow> png \<Rightarrow> int \<Rightarrow> nat option" where
  "pixelDiff baseline current idx =
     (let rDiff = abs_diff (buf_read (data baseline) idx) (buf_read (data current) idx);
          gDiff = abs_diff (buf_read (data baseline) (idx + 1)) (buf_read (data current) (idx + 1));
          bDiff = abs_diff (buf_read (data baseline) (idx + 2)) (buf_read (data current) (idx + 2));
          aDiff = abs_diff (buf_read (data baseline) (idx + 3)) (buf_read (data current) (idx + 3))
      in js_max (js_max (js_max rDiff gDiff) bDiff) aDiff)"

text \<open>\<open>pixelDiff > this.pixelThreshold\<close>\<close>

definition exceeds :: "nat option \<Rightarrow> rat \<Rightarrow> bool" where
  "exceeds d t = (case d of None \<Rightarrow> False | Some n \<Rightarrow> t < of_nat n)"

text \<open>
  The body of the two nested loops: the state is the counter \<open>diffPixels\<close> and the buffer of
  the diff image.
\<close>

definition compare_pixel ::
  "comparator \<Rightarrow> png \<Rightarrow> png \<Rightarrow> nat \<Rightarrow> nat \<Rightarrow> nat \<times> 8 word list \<Rightarrow> nat \<times> 8 word list" where
  "compare_pixel cmp baseline current y x st =
     (let idx = pixel_idx (width baseline) x y;
          n = fst st; d = snd st
      in if exceeds (pixelDiff baseline current idx) (pixelThreshold cmp)
         then (Suc n,
               buf_write (buf_write (buf_write (buf_write d idx (Some 255))
                 (idx + 1) (Some 0)) (idx + 2) (Some 0)) (idx + 3) (Some 255))
         else (n,
               buf_write (buf_write (buf_write (buf_write d idx (buf_read (data baseline) idx))
                 (idx + 1) (buf_read (data baseline) (idx + 1)))
                 (idx + 2) (buf_read (data baseline) (idx + 2))) (idx + 3) (Some 128)))"

definition compare_row ::
  "comparator \<Rightarrow> png \<Rightarrow> png \<Rightarrow> nat \<Rightarrow> nat \<times> 8 word list \<Rightarrow> nat \<times> 8 word list" where
  "compare_row cmp baseline current y st =
     fold (compare_pixel cmp baseline current y) [0..<width baseline] st"

definition compare_pixels :: "comparator \<Rightarrow> png \<Rightarrow> png \<Rightarrow> nat \<times> 8 word list" where
  "compare_pixels cmp baseline current =
     fold (compare_row cmp baseline current) [0..<height baseline]
       (0, replicate (4 * width baseline * height baseline) 0)"

text \<open>
  \<open>(diffPixels / totalPixels) * 100\<close>: the quotient is rounded, and then the product;
  \<open>0 / 0\<close> is \<open>NaN\<close>.
\<close>

definition percentage :: "nat \<Rightarrow> nat \<Rightarrow> jsnum" where
  "percentage n tot =
     (if tot = 0 then NaN else Num (double (double (of_nat n / of_nat tot) * 100)))"

text \<open>
  \<open>compareScreenshots\<close> after both files have been read and decoded. The second component
  is the diff image written to \<open>outputPath\<close>, if one is written (an absent or empty
  path is falsy).
\<close>

definition compareScreenshots ::
  "comparator \<Rightarrow> png \<Rightarrow> png \<Rightarrow> string option \<Rightarrow> ComparisonResult \<times> png option" where
  "compareScreenshots cmp baseline current outputPath =
     (if width baseline \<noteq> width current \<or> height baseline \<noteq> height current
      then (\<lparr>isMatch = False, diffPercentage = Num 100,
             diffPixels = width baseline * height baseline,
             totalPixels = width baseline * height baseline,
             diffImagePath = None\<rparr>, None)
      else
        (let r = compare_pixels cmp baseline current;
             tot = width baseline * height baseline;
             pct = percentage (fst r) tot;
             result = \<lparr>isMatch = js_le pct (threshold cmp), diffPercentage = pct,
                       diffPixels = fst r, totalPixels = tot, diffImagePath = None\<rparr>
         in case outputPath of
              None \<Rightarrow> (result, None)
            | Some p \<Rightarrow>
                if p \<noteq> [] \<and> 0 < fst r
                then (result\<lparr>diffImagePath := Some p\<rparr>,
                      Some \<lparr>width = width baseline, height = height baseline, data = snd r\<rparr>)
                else (result, None)))"

text \<open>
  The comparison as the specification words it: the absolute difference of one channel byte,
  the maximum over the four channels of pixel \<open>p\<close> (row-major position), and the test against
  the per-pixel threshold.
\<close>

definition channel_diff :: "png \<Rightarrow> png \<Rightarrow> nat \<Rightarrow> nat" where
  "channel_diff baseline current i =
     (let m = unat (data baseline ! i); n = unat (data current ! i)
      in if m \<le> n then n - m else m - n)"

definition max_channel_diff :: "png \<Rightarrow> png \<Rightarrow> nat \<Rightarrow> nat" where
  "max_channel_diff baseline current p =
     max (max (max (channel_diff baseline current (4 * p))
                   (channel_diff baseline current (4 * p + 1)))
              (channel_diff baseline current (4 * p + 2)))
         (channel_diff baseline current (4 * p + 3))"

definition pixel_different :: "rat \<Rightarrow> png \<Rightarrow> png \<Rightarrow> nat \<Rightarrow> bool" where
  "pixel_different t baseline current p \<longleftrightarrow> t < of_nat (max_channel_diff baseline current p)"

text \<open>
  What the PNG decoder delivers: positive dimensions and four bytes per pixel. The bound on
  the pixel count is the range in which the 32-bit shift of \<open>pixel_idx\<close> is exact (a buffer
  of at most 2 GiB).
\<close>

definition decoded :: "png \<Rightarrow> bool" where
  "decoded img \<longleftrightarrow>
     0 < width img \<and> 0 < height img \<and>
     length (data img) = 4 * width img * height img \<and>
     width img * height img \<le> 2 ^ 29"

section \<open>Page analyzer (src/core/analyzer.ts)\<close>

text \<open>
  A JavaScript string is a sequence of code units; the functions below do not depend on what
  a code unit is, so a string is a list over any type.
\<close>

text \<open>\<open>s.charAt(k)\<close>: the string of the one code unit at \<open>k\<close>, or the empty string.\<close>

definition charAt :: "'a list \<Rightarrow> nat \<Rightarrow> 'a list" where
  "charAt s k = (if k < length s then [s ! k] else [])"

text \<open>
  The distance matrix is an array of rows of numbers. Reading a slot that was never written
  gives \<open>undefined\<close>, and arithmetic on it gives \<open>NaN\<close>: both are \<open>None\<close> here, and so
  is a read in a row that does not exist.
\<close>

type_synonym cell = "nat option"
type_synonym matrix = "cell list list"

definition mget :: "matrix \<Rightarrow> nat \<Rightarrow> nat \<Rightarrow> cell" where
  "mget m i j =
     (if i < length m then (if j < length (m ! i) then m ! i ! j else None) else None)"

text \<open>\<open>row[j] = v\<close>: overwrites slot \<open>j\<close>, or extends the row up to slot \<open>j\<close>.\<close>

definition row_put :: "cell list \<Rightarrow> nat \<Rightarrow> cell \<Rightarrow> cell list" where
  "row_put r j v =
     (if j < length r then r[j := v] else r @ replicate (j - length r) None @ [v])"

text \<open>\<open>matrix[i][j] = v\<close>\<close>

definition mset_cell :: "matrix \<Rightarrow> nat \<Rightarrow> nat \<Rightarrow> cell \<Rightarrow> matrix" where
  "mset_cell m i j v = (if i < length m then m[i := row_put (m ! i) j v] else m)"

text \<open>\<open>a + 1\<close> and \<open>Math.min(a, b, c)\<close> on cells.\<close>

definition cell_succ :: "cell \<Rightarrow> cell" where
  "cell_succ a = (case a of None \<Rightarrow> None | Some n \<Rightarrow> Some (n + 1))"

definition cell_min :: "cell \<Rightarrow> cell \<Rightarrow> cell" where
  "cell_min a b =
     (case a of None \<Rightarrow> None
      | Some m \<Rightarrow> (case b of None \<Rightarrow> None | Some n \<Rightarrow> Some (min m n)))"

text \<open>The body of the inner loop of \<open>levenshteinDistance\<close>, for row \<open>i\<close> and column \<open>j\<close>.\<close>

definition lev_step :: "'a list \<Rightarrow> 'a list \<Rightarrow> nat \<Rightarrow> nat \<Rightarrow> matrix \<Rightarrow> matrix" where
  "lev_step str1 str2 i j m =
     (if charAt str2 (i - 1) = charAt str1 (j - 1)
      then mset_cell m i j (mget m (i - 1) (j - 1))
      else mset_cell m i j
             (cell_min (cell_min (cell_succ (mget m (i - 1) (j - 1)))
                                 (cell_succ (mget m i (j - 1))))
                       (cell_succ (mget m (i - 1) j))))"

text \<open>
  \<open>levenshteinDistance\<close>: the first loop creates the rows \<open>[i]\<close>, the second fills row 0
  with \<open>0 .. str1.length\<close>, the nested loops fill the rest, and the result is the last
  cell of the last row.
\<close>

definition levenshteinDistance :: "'a list \<Rightarrow> 'a list \<Rightarrow> cell" where
  "levenshteinDistance str1 str2 =
     (let m0 = fold (\<lambda>i m. m @ [[Some i]]) [0..<Suc (length str2)] [];
          m1 = fold (\<lambda>j m. mset_cell m 0 j (Some j)) [0..<Suc (length str1)] m0;
          m2 = fold (\<lambda>i m. fold (lev_step str1 str2 i) [1..<Suc (length str1)] m)
                 [1..<Suc (length str2)] m1
      in mget m2 (length str2) (length str1))"

text \<open>
  \<open>calculateTextSimilarity\<close>. Equal strings score 100, an empty string against a non-empty
  one scores 0; otherwise the distance is taken between the longer string and the shorter
  one (the second argument counts as the longer one when the lengths are equal).
\<close>

definition calculateTextSimilarity :: "'a list \<Rightarrow> 'a list \<Rightarrow> jsnum" where
  "calculateTextSimilarity text1 text2 =
     (if text1 = text2 then Num 100
      else if text1 = [] \<or> text2 = [] then Num 0
      else
        (let longer = (if length text1 > length text2 then text1 else text2);
             shorter = (if length text1 > length text2 then text2 else text1)
         in if length longer = 0 then Num 100
            else (case levenshteinDistance longer shorter of
                    None \<Rightarrow> NaN
                  | Some editDistance \<Rightarrow>
                      Num (double (double ((of_nat (length longer) - of_nat editDistance)
                                            / of_nat (length longer)) * 100)))))"

text \<open>The analysis of one page state, and the comparison of two consecutive analyses.\<close>

record VisualAnalysis =
  hasContent :: bool
  isBlank :: bool
  textContent :: string
  elementCount :: nat
  imageCount :: nat
  hasErrors :: bool
  errorMessages :: "string list"
  loadingIndicators :: "string list"

datatype change =
    ContentAppeared | ContentDisappeared | ElementCountChanged rat
  | LoadingIndicatorsRemoved | LoadingIndicatorsAppeared | ErrorsDetected

record VisualDiff =
  hasSignificantChange :: bool
  changePercentage :: jsnum
  changedElements :: "change list"

text \<open>\<open>100 - x\<close> and \<open>x > 30\<close> on a number that may be \<open>NaN\<close>.\<close>

definition hundred_minus :: "jsnum \<Rightarrow> jsnum" where
  "hundred_minus a = (case a of NaN \<Rightarrow> NaN | Num q \<Rightarrow> Num (double (100 - q)))"

definition js_gt :: "jsnum \<Rightarrow> rat \<Rightarrow> bool" where
  "js_gt a t = (case a of NaN \<Rightarrow> False | Num q \<Rightarrow> t < q)"

definition compareAnalyses :: "VisualAnalysis \<Rightarrow> VisualAnalysis \<Rightarrow> VisualDiff" where
  "compareAnalyses previous current =
     (let c1 = (if isBlank previous \<and> \<not> isBlank current then [ContentAppeared] else []);
          c2 = (if \<not> isBlank previous \<and> isBlank current then [ContentDisappeared] else []);
          elementChange =
            (if elementCount previous \<le> elementCount current
             then elementCount current - elementCount previous
             else elementCount previous - elementCount current);
          elementChangePercent =
            (if elementCount previous > 0
             then double (double (of_nat elementChange / of_nat (elementCount previous)) * 100)
             else (100 :: rat));
          c3 = (if elementChangePercent > 20 then [ElementCountChanged elementChangePercent]
                else []);
          c4 = (if length (loadingIndicators previous) > 0
                   \<and> length (loadingIndicators current) = 0
                then [LoadingIndicatorsRemoved] else []);
          c5 = (if length (loadingIndicators previous) = 0
                   \<and> length (loadingIndicators current) > 0
                then [LoadingIndicatorsAppeared] else []);
          c6 = (if \<not> hasErrors previous \<and> hasErrors current then [ErrorsDetected] else []);
          changed = c1 @ c2 @ c3 @ c4 @ c5 @ c6;
          textChange = calculateTextSimilarity (textContent previous) (textContent current);
          pct = hundred_minus textChange
      in \<lparr>hasSignificantChange = (length changed > 0 \<or> js_gt pct 30),
          changePercentage = pct,
          changedElements = changed\<rparr>)"

text \<open>
  The recurrence that the matrix implements: the distance between the first \<open>i\<close> code
  units of \<open>str2\<close> and the first \<open>j\<close> code units of \<open>str1\<close>.
\<close>

fun lev_cell :: "'a list \<Rightarrow> 'a list \<Rightarrow> nat \<Rightarrow> nat \<Rightarrow> nat" where
  "lev_cell s1 s2 0 j = j"
| "lev_cell s1 s2 (Suc i) 0 = Suc i"
| "lev_cell s1 s2 (Suc i) (Suc j) =
     (if s2 ! i = s1 ! j then lev_cell s1 s2 i j
      else min (min (lev_cell s1 s2 i j + 1) (lev_cell s1 s2 (Suc i) j + 1))
               (lev_cell s1 s2 i (Suc j) + 1))"

text \<open>
  The intended content of the matrix while the loops run: rows above row \<open>i\<close> are complete,
  row \<open>i\<close> holds its first \<open>j\<close> cells, the rows below hold their first cell only.
\<close>

definition lev_row :: "'a list \<Rightarrow> 'a list \<Rightarrow> nat \<Rightarrow> nat \<Rightarrow> cell list" where
  "lev_row s1 s2 k n = map (\<lambda>c. Some (lev_cell s1 s2 k c)) [0..<n]"

definition mat_at :: "'a list \<Rightarrow> 'a list \<Rightarrow> nat \<Rightarrow> nat \<Rightarrow> matrix" where
  "mat_at s1 s2 i j =
     map (\<lambda>k. lev_row s1 s2 k (if k < i then Suc (length s1) else if k = i then j else 1))
       [0..<Suc (length s2)]"

section \<open>Loading-completion detector (src/core/detector.ts)\<close>

text \<open>
  The page as the strategies observe it: the time (in milliseconds after \<open>detect\<close> is
  called) at which the network becomes idle, at which the document is ready, and at which a
  selector appears; \<open>None\<close> if that never happens.
\<close>

record page_timeline =
  networkIdleAt :: "nat option"
  domReadyAt :: "nat option"
  selectorAt :: "string \<Rightarrow> nat option"

text \<open>
  A promise that has settled: when, and with which value. A wait of the browser library
  resolves when its condition is met within the timeout and is rejected at the timeout
  otherwise; each strategy turns the rejection into \<open>false\<close>.
\<close>

record settled =
  at_ms :: nat
  result :: bool

definition wait_for :: "nat option \<Rightarrow> nat \<Rightarrow> settled" where
  "wait_for condition timeout =
     (case condition of
        None \<Rightarrow> \<lparr>at_ms = timeout, result = False\<rparr>
      | Some t \<Rightarrow> if t \<le> timeout then \<lparr>at_ms = t, result = True\<rparr>
                  else \<lparr>at_ms = timeout, result = False\<rparr>)"

datatype LoadingStrategy =
    NetworkIdleStrategy nat
  | DOMReadyStrategy
  | ElementPresentStrategy string nat
  | TimeoutStrategy nat
  | CompositeStrategy "LoadingStrategy list"

text \<open>
  \<open>detect\<close>. The composite strategy awaits \<open>Promise.all\<close> of its members' promises, which
  settles when the last of them has settled, and then returns whether some result is true.
  The document-ready wait uses the browser library's default timeout of 30 seconds.
\<close>

fun detect :: "page_timeline \<Rightarrow> LoadingStrategy \<Rightarrow> settled" where
  "detect page (NetworkIdleStrategy timeout) = wait_for (networkIdleAt page) timeout"
| "detect page DOMReadyStrategy = wait_for (domReadyAt page) 30000"
| "detect page (ElementPresentStrategy selector timeout) = wait_for (selectorAt page selector) timeout"
| "detect page (TimeoutStrategy duration) = \<lparr>at_ms = duration, result = True\<rparr>"
| "detect page (CompositeStrategy strategies) =
     (let results = map (detect page) strategies
      in \<lparr>at_ms = fold max (map at_ms results) 0,
          result = list_ex result results\<rparr>)"

definition createDefaultStrategy :: LoadingStrategy where
  "createDefaultStrategy = CompositeStrategy [NetworkIdleStrategy 2000, TimeoutStrategy 10000]"

text \<open>
  \<open>createFromConfig\<close>, from the \<open>waitFor\<close> selector and the duration of the configuration
  (an absent or empty selector and an absent or zero duration are falsy).
\<close>

definition createFromConfig :: "string option \<Rightarrow> nat option \<Rightarrow> LoadingStrategy" where
  "createFromConfig waitFor duration =
     CompositeStrategy
       ((case waitFor of
           None \<Rightarrow> []
         | Some sel \<Rightarrow> if sel = [] then [] else [ElementPresentStrategy sel 5000])
        @ [NetworkIdleStrategy 2000,
           TimeoutStrategy (case duration of None \<Rightarrow> 10000
                            | Some d \<Rightarrow> if d = 0 then 10000 else d)])"

text \<open>
  What the specification asks of the composite strategy: when some member resolves true, the
  composite resolves at the moment the earliest such member does.
\<close>

definition first_true_at :: "settled list \<Rightarrow> nat option" where
  "first_true_at rs =
     (case filter result rs of
        [] \<Rightarrow> None
      | r # rest \<Rightarrow> Some (fold min (map at_ms rest) (at_ms r)))"

section \<open>Rendering numbers in strings\<close>

text \<open>
  The decimal text that a template literal or \<open>String(n)\<close> gives for a number: the digits
  of a natural number, most significant first, and a leading minus sign for a negative
  integer.
\<close>

definition digit_char :: "nat \<Rightarrow> char" where
  "digit_char d = ''0123456789'' ! (d mod 10)"

function decimal :: "nat \<Rightarrow> string" where
  "decimal n = (if n div 10 = 0 then [digit_char n] else decimal (n div 10) @ [digit_char n])"
  by pat_completeness auto
termination
  by (relation "measure id") auto

declare decimal.simps [simp del]

definition number_text :: "int \<Rightarrow> string" where
  "number_text i = (if 0 \<le> i then decimal (nat i) else CHR ''-'' # decimal (nat (- i)))"

text \<open>\<open>s.padStart(n, c)\<close> with a one-character filler.\<close>

definition padStart :: "nat \<Rightarrow> char \<Rightarrow> string \<Rightarrow> string" where
  "padStart n c s = replicate (n - length s) c @ s"

section \<open>Browser session adapter (src/core/browser.ts)\<close>

text \<open>
  The calls that reach the browser library are recorded in the order in which they are made.
  \<open>screenshot(path, fullPage = false)\<close> forwards both arguments to the page; the second one
  defaults to \<open>false\<close> when the caller leaves it out.
\<close>

datatype browser_call =
    Launch
  | Goto string
  | PageScreenshot string bool
  | Close

definition browser_screenshot :: "string \<Rightarrow> bool option \<Rightarrow> browser_call" where
  "browser_screenshot path fullPage =
     PageScreenshot path (case fullPage of None \<Rightarrow> False | Some b \<Rightarrow> b)"

section \<open>Capture orchestrator (src/core/capturer.ts)\<close>

datatype phase = Initial | Loading | Final

text \<open>The annotations of a screenshot; the error sample leaves the first three out.\<close>

record annotations =
  blankScreen :: "bool option"
  ann_hasContent :: "bool option"
  ann_loadingIndicators :: "string list option"
  ann_hasErrors :: bool
  ann_errorMessages :: "string list"
  isKeyFrame :: bool

record Screenshot =
  filename :: string
  timestamp :: int
  phase :: phase
  annotations :: annotations

text \<open>
  The configuration as the caller passes it, and as the constructor completes it
  (\<open>duration: 10000, interval: 500, ...config\<close>). Times are in milliseconds. A duration or
  interval that the caller passes as \<open>undefined\<close> or \<open>NaN\<close> (the capture command passes
  what \<open>parseInt\<close> returns) replaces the default.
\<close>

record CaptureConfig =
  url :: string
  duration :: "jsnum property"
  interval :: "jsnum property"
  waitFor :: "string option"
  fullPage :: "bool option"

definition with_defaults :: "CaptureConfig \<Rightarrow> CaptureConfig" where
  "with_defaults config =
     config\<lparr>duration := spread_over (Num 10000) (duration config),
            interval := spread_over (Num 500) (interval config)\<rparr>"

text \<open>\<open>this.config.duration!\<close>: the assertion does nothing at run time.\<close>

definition the_duration :: "CaptureConfig \<Rightarrow> jsnum option" where
  "the_duration config = read_property (duration config)"

text \<open>
  \<open>LoadingDetector.createFromConfig(this.config)\<close>. A duration that is \<open>undefined\<close>,
  \<open>NaN\<close> or 0 is falsy; any other one becomes the delay of the timeout strategy's timer,
  which counts whole milliseconds and at least one.
\<close>

definition detector_for :: "CaptureConfig \<Rightarrow> LoadingStrategy" where
  "detector_for config =
     createFromConfig (waitFor config)
       (case the_duration config of
          Some (Num q) \<Rightarrow> if q = 0 then Some 0 else Some (max 1 (nat \<lfloor>q\<rfloor>))
        | _ \<Rightarrow> None)"

text \<open>
  One reading of the metrics collector. Of a reading only the messages that
  \<open>analyzePerformance\<close> derives from it enter the manifest's issue list.
\<close>

record PerformanceMetrics =
  findings :: "string list"

text \<open>The part of the manifest that the analysis block and the screenshot list make up.\<close>

record CaptureResult =
  screenshots_of :: "Screenshot list"
  loadingDuration :: "jsnum option"
  keyFrames :: "string list"
  issues :: "string list"

datatype fault =
    LaunchFailed | DirectoryFailed | InstrumentationFailed | NavigationFailed
  | ScreenshotFailed | SaveFailed

text \<open>
  \<open>captureSequence\<close> is one asynchronous function that starts two more (the interval loop
  and the detection) and registers two event handlers; all of them run on one event loop and
  give up control only at an \<open>await\<close>. The local variables that a call of \<open>takeScreenshot\<close>
  or \<open>captureErrorScreenshot\<close> computes before its first \<open>await\<close> are kept in a \<open>shot\<close>.
\<close>

record shot =
  shot_index :: nat
  shot_filename :: string
  shot_timestamp :: int
  shot_messages :: "string list"

text \<open>Where each activity waits.\<close>

datatype main_pc =
    Launching
  | CreatingDirectory
  | Instrumenting
  | Navigating
  | MainShot phase shot
  | MainMetrics phase
  | Racing
  | Saving CaptureResult
  | Returned CaptureResult
  | Thrown fault

datatype loop_pc = LoopIdle | Sleeping | LoopShot shot | LoopMetrics | LoopExited | LoopRejected

datatype detect_pc = DetectIdle | Detecting | DetectSettled

text \<open>The fields of the capturer object, the browser's call log, and the waiting points.\<close>

record capturer =
  config :: CaptureConfig
  screenshots :: "Screenshot list"
  captureDir :: string
  startTime :: int
  loadingComplete :: bool
  loadingCompleteTime :: int
  previousAnalysis :: "VisualAnalysis option"
  keyFrameIndices :: "nat list"
  performanceMetrics :: "PerformanceMetrics list"
  browserCalls :: "browser_call list"
  main :: main_pc
  loop :: loop_pc
  detection :: detect_pc
  errorShots :: "shot list"

text \<open>\<open>Set.add\<close> on a set kept in insertion order.\<close>

definition set_add :: "nat \<Rightarrow> nat list \<Rightarrow> nat list" where
  "set_add i xs = (if i \<in> set xs then xs else xs @ [i])"

text \<open>
  The constructor, and the start of \<open>captureSequence\<close> up to its first \<open>await\<close>, which is
  the launch of the browser.
\<close>

definition new_capturer :: "CaptureConfig \<Rightarrow> capturer" where
  "new_capturer cfg =
     \<lparr>config = with_defaults cfg, screenshots = [], captureDir = [], startTime = 0,
      loadingComplete = False, loadingCompleteTime = 0, previousAnalysis = None,
      keyFrameIndices = [], performanceMetrics = [], browserCalls = [Launch],
      main = Launching, loop = LoopIdle, detection = DetectIdle, errorShots = []\<rparr>"

text \<open>
  \<open>takeScreenshot\<close> up to its first \<open>await\<close>: the index is the current length of the
  screenshot list, and the browser is asked for a screenshot without a second argument.
\<close>

definition begin_shot :: "int \<Rightarrow> capturer \<Rightarrow> shot \<times> capturer" where
  "begin_shot ts s =
     (let index = length (screenshots s);
          fname = padStart 3 (CHR ''0'') (decimal index) @ ''-'' @ number_text ts @ ''ms.png'';
          screenshotPath = captureDir s @ ''/'' @ fname
      in (\<lparr>shot_index = index, shot_filename = fname, shot_timestamp = ts, shot_messages = []\<rparr>,
          s\<lparr>browserCalls := browserCalls s @ [browser_screenshot screenshotPath None]\<rparr>))"

text \<open>
  \<open>takeScreenshot\<close> from the analysis result to the \<open>push\<close>: the key-frame decision against
  the previous analysis, and the new element of the list.
\<close>

definition finish_shot :: "phase \<Rightarrow> shot \<Rightarrow> VisualAnalysis \<Rightarrow> capturer \<Rightarrow> capturer" where
  "finish_shot ph sh analysis s =
     (let index = shot_index sh;
          kf = (case previousAnalysis s of
                  Some previous \<Rightarrow>
                    if hasSignificantChange (compareAnalyses previous analysis)
                    then set_add index (keyFrameIndices s) else keyFrameIndices s
                | None \<Rightarrow> set_add index (keyFrameIndices s));
          screenshot =
            \<lparr>filename = shot_filename sh, timestamp = shot_timestamp sh, phase = ph,
             annotations =
               \<lparr>blankScreen = Some (isBlank analysis),
                ann_hasContent = Some (hasContent analysis),
                ann_loadingIndicators = Some (loadingIndicators analysis),
                ann_hasErrors = hasErrors analysis,
                ann_errorMessages = errorMessages analysis,
                isKeyFrame = (index \<in> set kf)\<rparr>\<rparr>
      in s\<lparr>keyFrameIndices := kf, previousAnalysis := Some analysis,
            screenshots := screenshots s @ [screenshot]\<rparr>)"

text \<open>The end of \<open>takeScreenshot\<close>: a metrics reading is stored, a failed one is only logged.\<close>

definition store_metrics :: "PerformanceMetrics option \<Rightarrow> capturer \<Rightarrow> capturer" where
  "store_metrics m s =
     (case m of None \<Rightarrow> s
      | Some r \<Rightarrow> s\<lparr>performanceMetrics := performanceMetrics s @ [r]\<rparr>)"

text \<open>\<open>captureErrorScreenshot\<close> up to its \<open>await\<close>, and from there to its end.\<close>

definition begin_error_shot :: "string \<Rightarrow> string \<Rightarrow> int \<Rightarrow> capturer \<Rightarrow> capturer" where
  "begin_error_shot errorType errorMessage now s =
     (let ts = now - startTime s;
          index = length (screenshots s);
          fname = padStart 3 (CHR ''0'') (decimal index) @ ''-'' @ number_text ts
                    @ ''ms-ERROR.png'';
          screenshotPath = captureDir s @ ''/'' @ fname
      in s\<lparr>browserCalls := browserCalls s @ [browser_screenshot screenshotPath None],
            errorShots := errorShots s @
              [\<lparr>shot_index = index, shot_filename = fname, shot_timestamp = ts,
                shot_messages = [errorType @ '': '' @ errorMessage]\<rparr>]\<rparr>)"

definition finish_error_shot :: "shot \<Rightarrow> capturer \<Rightarrow> capturer" where
  "finish_error_shot sh s =
     s\<lparr>screenshots := screenshots s @
          [\<lparr>filename = shot_filename sh, timestamp = shot_timestamp sh, phase = Loading,
            annotations =
              \<lparr>blankScreen = None, ann_hasContent = None, ann_loadingIndicators = None,
               ann_hasErrors = True, ann_errorMessages = shot_messages sh,
               isKeyFrame = True\<rparr>\<rparr>],
        keyFrameIndices := set_add (shot_index sh) (keyFrameIndices s)\<rparr>"

text \<open>\<open>identifyKeyFrames\<close>; the sort compares the file names code unit by code unit.\<close>

definition identifyKeyFrames :: "capturer \<Rightarrow> string list" where
  "identifyKeyFrames s =
     (let detected = concat (map (\<lambda>index. if index < length (screenshots s)
                                           then [filename (screenshots s ! index)] else [])
                              (keyFrameIndices s));
          lastOne = (if screenshots s \<noteq> [] \<and> length (screenshots s) - 1 \<notin> set (keyFrameIndices s)
                     then [filename (last (screenshots s))] else [])
      in sort (detected @ lastOne))"

definition detectIssues :: "capturer \<Rightarrow> string list" where
  "detectIssues s =
     (if screenshots s \<noteq> [] \<and> blankScreen (annotations (last (screenshots s))) = Some True
      then [''Page appears blank at end of capture''] else [])
     @ (if \<not> loadingComplete s then [''Loading did not complete within timeout''] else [])
     @ (let errorScreenshots = filter (\<lambda>x. ann_hasErrors (annotations x)) (screenshots s)
        in if length errorScreenshots > 0
           then [decimal (length errorScreenshots) @ '' screenshots contain errors'']
           else [])"

definition analyzePerformanceMetrics :: "capturer \<Rightarrow> string list" where
  "analyzePerformanceMetrics s =
     (if performanceMetrics s = [] then [] else findings (last (performanceMetrics s)))"

text \<open>
  \<open>generateManifest\<close>; \<open>loadingCompleteTime || duration\<close> takes the duration when the time
  is 0. The screenshot list of the object is the capturer's own array: here it has the
  elements of the moment at which the manifest is generated, which are the ones that
  \<open>saveManifest\<close> writes to the file.
\<close>

definition generateManifest :: "capturer \<Rightarrow> CaptureResult" where
  "generateManifest s =
     \<lparr>screenshots_of = screenshots s,
      loadingDuration = (if loadingCompleteTime s \<noteq> 0
                         then Some (Num (of_int (loadingCompleteTime s)))
                         else the_duration (config s)),
      keyFrames = identifyKeyFrames s,
      issues = detectIssues s @ analyzePerformanceMetrics s\<rparr>"

text \<open>The \<open>catch\<close> block of \<open>captureSequence\<close>: the browser is closed and the fault is thrown again.\<close>

definition fail_with :: "fault \<Rightarrow> capturer \<Rightarrow> capturer" where
  "fail_with f s = s\<lparr>browserCalls := browserCalls s @ [Close], main := Thrown f\<rparr>"

text \<open>The condition of the \<open>while\<close> loop of \<open>captureAtIntervals\<close>, read at time \<open>now\<close>.\<close>

definition loop_continues :: "int \<Rightarrow> capturer \<Rightarrow> bool" where
  "loop_continues now s \<longleftrightarrow>
     \<not> loadingComplete s \<and> js_less (now - startTime s) (the_duration (config s))"

definition loop_check :: "int \<Rightarrow> capturer \<Rightarrow> capturer" where
  "loop_check now s = s\<lparr>loop := (if loop_continues now s then Sleeping else LoopExited)\<rparr>"


subsection \<open>The session as a sequence of events\<close>

text \<open>
  An event is the settling of something an activity waits for; it carries what the
  environment decides: whether the awaited promise resolves, the value it resolves with, and
  the clock reading \<open>Date.now()\<close> that the resumed code takes next.
\<close>

datatype event =
    Launched bool
  | DirectoryCreated "string option"
  | Instrumented bool
  | Navigated "int option"
  | PageError string string int
  | ErrorShotDone nat bool
  | ShotDone "VisualAnalysis option"
  | MetricsDone "PerformanceMetrics option" int
  | Wake int
  | LoopShotDone "VisualAnalysis option"
  | LoopMetricsDone "PerformanceMetrics option" int
  | Detected bool int
  | RaceOver int
  | ManifestSaved bool

text \<open>
  The main flow of \<open>captureSequence\<close>, one \<open>await\<close> at a time. A rejected promise leads to
  the \<open>catch\<close> block.
\<close>

definition on_launched :: "bool \<Rightarrow> capturer \<Rightarrow> capturer option" where
  "on_launched ok s =
     (case main s of
        Launching \<Rightarrow> Some (if ok then s\<lparr>main := CreatingDirectory\<rparr> else fail_with LaunchFailed s)
      | _ \<Rightarrow> None)"

definition on_directory :: "string option \<Rightarrow> capturer \<Rightarrow> capturer option" where
  "on_directory dir s =
     (case main s of
        CreatingDirectory \<Rightarrow>
          Some (case dir of
                  Some d \<Rightarrow> s\<lparr>captureDir := d, main := Instrumenting\<rparr>
                | None \<Rightarrow> fail_with DirectoryFailed s)
      | _ \<Rightarrow> None)"

text \<open>
  After the instrumentation the two page-event handlers are registered and the navigation
  is started.
\<close>

definition on_instrumented :: "bool \<Rightarrow> capturer \<Rightarrow> capturer option" where
  "on_instrumented ok s =
     (case main s of
        Instrumenting \<Rightarrow>
          Some (if ok
                then s\<lparr>browserCalls := browserCalls s @ [Goto (url (config s))],
                       main := Navigating\<rparr>
                else fail_with InstrumentationFailed s)
      | _ \<Rightarrow> None)"

text \<open>After the navigation the clock starts and the initial sample is begun.\<close>

definition on_navigated :: "int option \<Rightarrow> capturer \<Rightarrow> capturer option" where
  "on_navigated r s =
     (case main s of
        Navigating \<Rightarrow>
          Some (case r of
                  Some now \<Rightarrow>
                    (let (sh, s') = begin_shot 0 (s\<lparr>startTime := now\<rparr>)
                     in s'\<lparr>main := MainShot Initial sh\<rparr>)
                | None \<Rightarrow> fail_with NavigationFailed s)
      | _ \<Rightarrow> None)"

text \<open>The screenshot and the analysis of the main flow's sample (the initial or the final one).\<close>

definition on_shot_done :: "VisualAnalysis option \<Rightarrow> capturer \<Rightarrow> capturer option" where
  "on_shot_done r s =
     (case main s of
        MainShot ph sh \<Rightarrow>
          Some (case r of
                  Some analysis \<Rightarrow> (finish_shot ph sh analysis s)\<lparr>main := MainMetrics ph\<rparr>
                | None \<Rightarrow> fail_with ScreenshotFailed s)
      | _ \<Rightarrow> None)"

text \<open>
  The end of the main flow's sample. After the initial sample the detection and the interval
  loop are started and the race is awaited; the loop evaluates its condition once before it
  first sleeps. After the final sample the manifest is generated and handed to the store.
\<close>

definition on_metrics_done :: "PerformanceMetrics option \<Rightarrow> int \<Rightarrow> capturer \<Rightarrow> capturer option" where
  "on_metrics_done m now s =
     (case main s of
        MainMetrics ph \<Rightarrow>
          (let s1 = store_metrics m s in
           case ph of
             Initial \<Rightarrow> Some ((loop_check now (s1\<lparr>detection := Detecting\<rparr>))\<lparr>main := Racing\<rparr>)
           | Final \<Rightarrow> Some (s1\<lparr>main := Saving (generateManifest s1)\<rparr>)
           | Loading \<Rightarrow> None)
      | _ \<Rightarrow> None)"

text \<open>
  The race ends when the deadline timer fires or when the detection and the loop have both
  finished; the final sample is begun.
\<close>

definition on_race_over :: "int \<Rightarrow> capturer \<Rightarrow> capturer option" where
  "on_race_over now s =
     (case main s of
        Racing \<Rightarrow>
          (let (sh, s') = begin_shot (now - startTime s) s
           in Some (s'\<lparr>main := MainShot Final sh\<rparr>))
      | _ \<Rightarrow> None)"

text \<open>
  The manifest is saved, or saving fails; either way the browser is closed. The object that
  is returned holds the capturer's screenshot array itself, so the caller finds in it also
  the samples that were stored while the manifest was being saved. Closing the browser is
  one step here: the call is recorded and \<open>captureSequence\<close> returns or throws.
\<close>

definition on_saved :: "bool \<Rightarrow> capturer \<Rightarrow> capturer option" where
  "on_saved ok s =
     (case main s of
        Saving manifest \<Rightarrow>
          Some (if ok
                then s\<lparr>browserCalls := browserCalls s @ [Close],
                       main := Returned (manifest\<lparr>screenshots_of := screenshots s\<rparr>)\<rparr>
                else fail_with SaveFailed s)
      | _ \<Rightarrow> None)"

text \<open>\<open>detectLoading\<close> after its \<open>await\<close>.\<close>

definition on_detected :: "bool \<Rightarrow> int \<Rightarrow> capturer \<Rightarrow> capturer option" where
  "on_detected isComplete now s =
     (case detection s of
        Detecting \<Rightarrow>
          Some (if isComplete
                then s\<lparr>loadingComplete := True, loadingCompleteTime := now - startTime s,
                       detection := DetectSettled\<rparr>
                else s\<lparr>detection := DetectSettled\<rparr>)
      | _ \<Rightarrow> None)"

text \<open>
  \<open>captureAtIntervals\<close>. After the sleep a sample is begun unless loading is complete, in
  which case the loop condition fails next. A rejected screenshot rejects the loop's promise,
  which makes the race fail if it is still awaited.
\<close>

definition on_wake :: "int \<Rightarrow> capturer \<Rightarrow> capturer option" where
  "on_wake now s =
     (case loop s of
        Sleeping \<Rightarrow>
          Some (if \<not> loadingComplete s
                then (let (sh, s') = begin_shot (now - startTime s) s in s'\<lparr>loop := LoopShot sh\<rparr>)
                else s\<lparr>loop := LoopExited\<rparr>)
      | _ \<Rightarrow> None)"

definition on_loop_shot_done :: "VisualAnalysis option \<Rightarrow> capturer \<Rightarrow> capturer option" where
  "on_loop_shot_done r s =
     (case loop s of
        LoopShot sh \<Rightarrow>
          Some (case r of
                  Some analysis \<Rightarrow> (finish_shot Loading sh analysis s)\<lparr>loop := LoopMetrics\<rparr>
                | None \<Rightarrow>
                    (case main s of
                       Racing \<Rightarrow> fail_with ScreenshotFailed (s\<lparr>loop := LoopRejected\<rparr>)
                     | _ \<Rightarrow> s\<lparr>loop := LoopRejected\<rparr>))
      | _ \<Rightarrow> None)"

definition on_loop_metrics_done ::
  "PerformanceMetrics option \<Rightarrow> int \<Rightarrow> capturer \<Rightarrow> capturer option" where
  "on_loop_metrics_done m now s =
     (case loop s of
        LoopMetrics \<Rightarrow> Some (loop_check now (store_metrics m s))
      | _ \<Rightarrow> None)"

text \<open>
  The page-event handlers exist from the start of the navigation on. A handler begins an
  error sample at once; the sample is stored when its screenshot resolves and dropped when
  it is rejected.
\<close>

definition handlers_registered :: "capturer \<Rightarrow> bool" where
  "handlers_registered s =
     (case main s of
        Launching \<Rightarrow> False | CreatingDirectory \<Rightarrow> False | Instrumenting \<Rightarrow> False
      | _ \<Rightarrow> True)"

definition on_page_error :: "string \<Rightarrow> string \<Rightarrow> int \<Rightarrow> capturer \<Rightarrow> capturer option" where
  "on_page_error errorType errorMessage now s =
     (if handlers_registered s then Some (begin_error_shot errorType errorMessage now s)
      else None)"

definition on_error_shot_done :: "nat \<Rightarrow> bool \<Rightarrow> capturer \<Rightarrow> capturer option" where
  "on_error_shot_done k ok s =
     (if handlers_registered s \<and> k < length (errorShots s)
      then (let sh = errorShots s ! k;
                s' = s\<lparr>errorShots := take k (errorShots s) @ drop (Suc k) (errorShots s)\<rparr>
            in Some (if ok then finish_error_shot sh s' else s'))
      else None)"

text \<open>Whether \<open>captureSequence\<close> has returned or thrown.\<close>

definition exited :: "capturer \<Rightarrow> bool" where
  "exited s = (case main s of Returned _ \<Rightarrow> True | Thrown _ \<Rightarrow> True | _ \<Rightarrow> False)"

fun dispatch :: "event \<Rightarrow> capturer \<Rightarrow> capturer option" where
  "dispatch (Launched ok) s = on_launched ok s"
| "dispatch (DirectoryCreated dir) s = on_directory dir s"
| "dispatch (Instrumented ok) s = on_instrumented ok s"
| "dispatch (Navigated r) s = on_navigated r s"
| "dispatch (PageError errorType errorMessage now) s = on_page_error errorType errorMessage now s"
| "dispatch (ErrorShotDone k ok) s = on_error_shot_done k ok s"
| "dispatch (ShotDone r) s = on_shot_done r s"
| "dispatch (MetricsDone m now) s = on_metrics_done m now s"
| "dispatch (Wake now) s = on_wake now s"
| "dispatch (LoopShotDone r) s = on_loop_shot_done r s"
| "dispatch (LoopMetricsDone m now) s = on_loop_metrics_done m now s"
| "dispatch (Detected isComplete now) s = on_detected isComplete now s"
| "dispatch (RaceOver now) s = on_race_over now s"
| "dispatch (ManifestSaved ok) s = on_saved ok s"

text \<open>
  One step of the session. The session ends when \<open>captureSequence\<close> returns or throws; what
  the event loop delivers afterwards is not part of it.
\<close>

definition step :: "event \<Rightarrow> capturer \<Rightarrow> capturer option" where
  "step e s = (if exited s then None else dispatch e s)"

text \<open>A run: the events in the order in which the event loop delivers them.\<close>

fun run :: "event list \<Rightarrow> capturer \<Rightarrow> capturer option" where
  "run [] s = Some s"
| "run (e # es) s = (case step e s of None \<Rightarrow> None | Some s' \<Rightarrow> run es s')"

definition captureSequence :: "CaptureConfig \<Rightarrow> event list \<Rightarrow> capturer option" where
  "captureSequence cfg events = run events (new_capturer cfg)"

text \<open>
  The manifest, once it has been generated: as it is written to the file while it is being
  saved, and as the caller receives it afterwards.
\<close>

definition manifest_of :: "capturer \<Rightarrow> CaptureResult option" where
  "manifest_of s = (case main s of Saving m \<Rightarrow> Some m | Returned m \<Rightarrow> Some m | _ \<Rightarrow> None)"


subsection \<open>Observations on a session\<close>

text \<open>How often the browser's close operation has been invoked.\<close>

definition closes :: "capturer \<Rightarrow> nat" where
  "closes s = length (filter (\<lambda>c. c = Close) (browserCalls s))"

text \<open>The fidelity that a call asks of the browser library: true for a full-page screenshot.\<close>

fun asks_full_page :: "browser_call \<Rightarrow> bool" where
  "asks_full_page (PageScreenshot path full) = full"
| "asks_full_page c = False"

text \<open>
  An out-of-band error sample as \<open>captureErrorScreenshot\<close> stores it: phase loading, flagged
  as erroneous and as a key frame, without the annotations of an analysis.
\<close>

definition error_sample :: "Screenshot \<Rightarrow> bool" where
  "error_sample x \<longleftrightarrow>
     phase x = Loading \<and> blankScreen (annotations x) = None
     \<and> ann_hasErrors (annotations x) \<and> isKeyFrame (annotations x)"

text \<open>
  How far the main flow has come: 0 until the initial sample is stored, 1 until the final
  sample is stored, 2 afterwards, 3 after a fault. The main flow never takes a sample of
  phase loading (4).
\<close>

fun progress :: "main_pc \<Rightarrow> nat" where
  "progress (MainShot Initial sh) = 0"
| "progress (MainShot Final sh) = 1"
| "progress (MainShot Loading sh) = 4"
| "progress (MainMetrics Initial) = 1"
| "progress (MainMetrics Final) = 2"
| "progress (MainMetrics Loading) = 4"
| "progress Racing = 1"
| "progress (Saving m) = 2"
| "progress (Returned m) = 2"
| "progress (Thrown f) = 3"
| "progress pc = 0"

text \<open>
  Reading a screenshot sequence from left to right: error samples, then the initial sample
  (a key frame), then samples of phase loading, then the final sample, then samples of phase
  loading. The result is the part reached (0, 1 or 2), or \<open>None\<close> for any other sequence.
\<close>

fun scan :: "nat \<Rightarrow> Screenshot list \<Rightarrow> nat option" where
  "scan q [] = Some q"
| "scan q (x # xs) =
     (if q = 0 then
        (if error_sample x then scan 0 xs
         else if phase x = Initial \<and> isKeyFrame (annotations x) then scan 1 xs
         else None)
      else if q = 1 then
        (if phase x = Loading then scan 1 xs
         else if phase x = Final then scan 2 xs
         else None)
      else if q = 2 then (if phase x = Loading then scan 2 xs else None)
      else None)"

text \<open>The event by which the detection reports that loading is complete.\<close>

fun reports_completion :: "event \<Rightarrow> bool" where
  "reports_completion (Detected isComplete now) = isComplete"
| "reports_completion e = False"


text \<open>No call has asked the browser library for a full-page screenshot.\<close>

definition no_full_page :: "capturer \<Rightarrow> bool" where
  "no_full_page s \<longleftrightarrow> list_all (\<lambda>c. \<not> asks_full_page c) (browserCalls s)"

text \<open>
  As long as the detection has not reported completion, the flag and the completion time
  keep their initial values, and a manifest generated in this state records the timeout.
\<close>

definition timeout_message :: string where
  "timeout_message = ''Loading did not complete within timeout''"

definition undetected :: "capturer \<Rightarrow> bool" where
  "undetected s \<longleftrightarrow>
     \<not> loadingComplete s \<and> loadingCompleteTime s = 0 \<and>
     (\<forall>m. manifest_of s = Some m \<longrightarrow>
        timeout_message \<in> set (issues m) \<and> loadingDuration m = the_duration (config s))"


text \<open>
  The screenshot sequence has the form that the progress of the main flow allows; before the
  initial sample is stored no analysis has been kept and the interval loop has not started.
\<close>

definition shaped :: "capturer \<Rightarrow> bool" where
  "shaped s \<longleftrightarrow>
     progress (main s) \<noteq> 4 \<and>
     (progress (main s) = 0 \<longrightarrow>
        scan 0 (screenshots s) = Some 0 \<and> previousAnalysis s = None \<and> loop s = LoopIdle) \<and>
     (progress (main s) = 1 \<longrightarrow> scan 0 (screenshots s) = Some 1) \<and>
     (progress (main s) = 2 \<longrightarrow> scan 0 (screenshots s) = Some 2) \<and>
     (\<forall>m. manifest_of s = Some m \<longrightarrow> scan 0 (screenshots_of m) = Some 2)"



subsection \<open>Example pages, configurations and sessions\<close>

text \<open>A page that shows only a spinner, and the same page once its content has loaded.\<close>

definition spinner_page :: VisualAnalysis where
  "spinner_page =
     \<lparr>hasContent = False, isBlank = True, textContent = '''', elementCount = 5, imageCount = 0,
      hasErrors = False, errorMessages = [], loadingIndicators = [''.spinner (1)'']\<rparr>"

definition loaded_page :: VisualAnalysis where
  "loaded_page =
     \<lparr>hasContent = True, isBlank = False, textContent = ''Content loaded'', elementCount = 50,
      imageCount = 5, hasErrors = False, errorMessages = [], loadingIndicators = []\<rparr>"

text \<open>A configuration with the given duration and interval that asks for full-page screenshots.\<close>

definition full_page_config :: "int \<Rightarrow> int \<Rightarrow> CaptureConfig" where
  "full_page_config d i =
     \<lparr>url = ''http://localhost:3000'', duration = Present (Num (of_int d)),
      interval = Present (Num (of_int i)), waitFor = None, fullPage = Some True\<rparr>"

text \<open>
  The page as the detector sees it: one whose network becomes idle a given time after the
  detection has started, and one whose network stays busy.
\<close>

definition idle_after :: "nat \<Rightarrow> page_timeline" where
  "idle_after t = \<lparr>networkIdleAt = Some t, domReadyAt = Some 300, selectorAt = (\<lambda>sel. None)\<rparr>"

definition busy_page :: page_timeline where
  "busy_page = \<lparr>networkIdleAt = None, domReadyAt = Some 300, selectorAt = (\<lambda>sel. None)\<rparr>"

text \<open>
  The event by which the detection of a session reports: the detector that the configuration
  gives is run on the page from the clock reading at which \<open>detectLoading\<close> is called.
\<close>

definition detection_report :: "CaptureConfig \<Rightarrow> page_timeline \<Rightarrow> int \<Rightarrow> event" where
  "detection_report cfg page started =
     (let d = detect page (detector_for (with_defaults cfg))
      in Detected (result d) (started + int (at_ms d)))"



text \<open>
  A session of 1000 ms with an interval of 1000 ms. The loop's timer and the deadline timer
  are set in the same turn of the event loop (clock 5040) and fire in the same millisecond
  (clock 6040), the loop's first: the loop begins a sample, and the main flow begins the
  final sample before the loop's sample is stored. Both samples see the loaded page. The
  network of the page stays busy, so the detection does not report before 7040.
\<close>

definition overlapping_session :: "event list" where
  "overlapping_session =
     [Launched True, DirectoryCreated (Some ''shots''), Instrumented True, Navigated (Some 5000),
      ShotDone (Some spinner_page), MetricsDone None 5040,
      Wake 6040, RaceOver 6040,
      LoopShotDone (Some loaded_page), ShotDone (Some loaded_page),
      LoopMetricsDone None 6200, MetricsDone None 6210]"

text \<open>
  A session of 1000 ms (interval 2000 ms) whose page throws a script error while it is being
  navigated to (clock 4990, before the clock of the session starts at 5000) and another one
  while the final sample is being captured (clock 6050); both error screenshots succeed, the
  second after the final sample has been stored. The network of the page stays busy, so
  the detection would report at 7040 (see \<open>detection_report\<close>), when the session is over.
\<close>

definition failing_page_session :: "event list" where
  "failing_page_session =
     [Launched True, DirectoryCreated (Some ''shots''), Instrumented True,
      PageError ''js-error'' ''boom'' 4990, ErrorShotDone 0 True,
      Navigated (Some 5000), ShotDone (Some spinner_page), MetricsDone None 5040,
      RaceOver 6040, PageError ''js-error'' ''late'' 6050,
      ShotDone (Some loaded_page), ErrorShotDone 0 True,
      MetricsDone None 6100, ManifestSaved True]"


text \<open>
  A session of 1000 ms (interval 2000 ms) on a page whose network becomes idle 1060 ms
  after the detection has started at 5040: the deadline timer fires at 6040, and the
  detection, which nothing cancels, reports at 6100, while the final sample is being
  captured.
\<close>

definition late_detection_session :: "event list" where
  "late_detection_session =
     [Launched True, DirectoryCreated (Some ''shots''), Instrumented True, Navigated (Some 5000),
      ShotDone (Some spinner_page), MetricsDone None 5040,
      RaceOver 6040, detection_report (full_page_config 1000 2000) (idle_after 1060) 5040,
      ShotDone (Some loaded_page), MetricsDone None 6150, ManifestSaved True]"


text \<open>The manifest of a session, if the session generates one.\<close>

definition session_manifest :: "CaptureConfig \<Rightarrow> event list \<Rightarrow> CaptureResult option" where
  "session_manifest cfg events =
     (case captureSequence cfg events of None \<Rightarrow> None | Some s \<Rightarrow> manifest_of s)"

text \<open>A page whose network becomes idle 1800 ms after the detection has started.\<close>

definition idle_at_1800 :: page_timeline where
  "idle_at_1800 = \<lparr>networkIdleAt = Some 1800, domReadyAt = Some 300, selectorAt = (\<lambda>sel. None)\<rparr>"

section \<open>Properties of the arithmetic\<close>

lemma double_zero [simp]: "double 0 = 0"
  by (simp add: double_def)

text \<open>Evaluating \<open>double\<close> at a whole number.\<close>

lemma ilog2_numeral:
  "ilog2 (numeral k) = (if numeral k < (2 :: nat) then 0 else Suc (ilog2 (numeral k div 2)))"
  by (rule ilog2.simps)

lemma ilog2_small: "ilog2 0 = 0" "ilog2 1 = 0" "ilog2 (Suc 0) = 0"
  by (simp_all add: ilog2.simps)

lemmas double_eval =
  double_def binade_def pow2_def round_even_def Let_def ilog2_numeral ilog2_small

lemma double_whole [simp]: "double 100 = 100" "double 900 = 900" "double 9 = 9"
  by (simp_all add: double_eval)

text \<open>
  \<open>ilog2\<close> is the integer logarithm, and \<open>binade\<close> gives the power of two at or below
  its argument.
\<close>

lemma ilog2_bounds: "0 < n \<Longrightarrow> 2 ^ ilog2 n \<le> n \<and> n < 2 ^ Suc (ilog2 n)"
proof (induction n rule: ilog2.induct)
  case (1 n)
  show ?case
  proof (cases "n < 2")
    case True
    with "1.prems" have "n = 1" by simp
    then show ?thesis by (simp add: ilog2.simps)
  next
    case False
    then have "0 < n div 2" by simp
    with False "1.IH" have ih: "2 ^ ilog2 (n div 2) \<le> n div 2" "n div 2 < 2 ^ Suc (ilog2 (n div 2))"
      by simp_all
    have e: "ilog2 n = Suc (ilog2 (n div 2))" using False by (simp add: ilog2.simps [of n])
    from ih(1) have "2 * 2 ^ ilog2 (n div 2) \<le> n" by linarith
    moreover from ih(2) have "n < 2 * 2 ^ Suc (ilog2 (n div 2))" by linarith
    ultimately show ?thesis by (simp add: e)
  qed
qed

lemma pow2_pos: "0 < pow2 k"
  by (simp add: pow2_def)

lemma pow2_add: "pow2 (j + k) = pow2 j * pow2 k"
  by (simp add: pow2_def power_int_def [symmetric] power_int_add flip: power_int_minus)
     (auto simp: power_int_def power_add [symmetric] field_simps nat_add_distrib nat_diff_distrib)

lemma pow2_neg: "pow2 (- int m) = 1 / 2 ^ m"
  by (simp add: pow2_def)

lemma binade_bounds:
  assumes "0 < q"
  shows "pow2 (binade q) \<le> q \<and> q < pow2 (binade q + 1)"
proof (cases "1 \<le> q")
  case True
  define n where "n = nat \<lfloor>q\<rfloor>"
  from True have f: "1 \<le> \<lfloor>q\<rfloor>" by simp
  then have n: "0 < n" unfolding n_def by linarith
  from f have ni: "int n = \<lfloor>q\<rfloor>" unfolding n_def by simp
  have "of_int \<lfloor>q\<rfloor> \<le> q" by (rule of_int_floor_le)
  then have nq: "of_nat n \<le> q" by (simp only: ni [symmetric] of_int_of_nat_eq)
  have "q < of_int \<lfloor>q\<rfloor> + 1" by linarith
  then have qn: "q < of_nat n + 1" by (simp only: ni [symmetric] of_int_of_nat_eq)
  from ilog2_bounds [OF n] have b: "2 ^ ilog2 n \<le> n" "n < 2 ^ Suc (ilog2 n)" by simp_all
  from b(1) have "(2 :: rat) ^ ilog2 n \<le> of_nat n"
    by (metis of_nat_le_iff of_nat_numeral of_nat_power)
  with nq have l: "(2 :: rat) ^ ilog2 n \<le> q" by (rule order_trans [rotated])
  from b(2) have "n + 1 \<le> 2 ^ Suc (ilog2 n)" by simp
  then have "(of_nat (n + 1) :: rat) \<le> of_nat (2 ^ Suc (ilog2 n))"
    by (simp only: of_nat_le_iff)
  then have "(of_nat n :: rat) + 1 \<le> 2 ^ Suc (ilog2 n)" by simp
  with qn have u: "q < 2 ^ Suc (ilog2 n)" by (rule less_le_trans)
  have e: "binade q = int (ilog2 n)" using True by (simp add: binade_def n_def)
  from l u show ?thesis
    by (simp add: e pow2_def nat_add_distrib)
next
  case False
  define r where "r = 1 / q"
  define n where "n = nat \<lceil>r\<rceil>"
  from False assms have r1: "1 < r" by (simp add: r_def)
  then have c: "2 \<le> \<lceil>r\<rceil>" by linarith
  then have n2: "2 \<le> n" unfolding n_def by linarith
  from c have ni: "int n = \<lceil>r\<rceil>" unfolding n_def by simp
  have "r \<le> of_int \<lceil>r\<rceil>" by (rule le_of_int_ceiling)
  then have rn: "r \<le> of_nat n" by (simp only: ni [symmetric] of_int_of_nat_eq)
  have "of_int \<lceil>r\<rceil> - 1 < r" by linarith
  then have nr: "of_nat n - 1 < r" by (simp only: ni [symmetric] of_int_of_nat_eq)
  define k where "k = Suc (ilog2 (n - 1))"
  from n2 have "0 < n - 1" by simp
  from ilog2_bounds [OF this] have b: "2 ^ ilog2 (n - 1) \<le> n - 1" "n - 1 < 2 ^ k"
    by (simp_all add: k_def)
  from b(2) n2 have "n \<le> 2 ^ k" by simp
  then have "(of_nat n :: rat) \<le> of_nat (2 ^ k)" by (simp only: of_nat_le_iff)
  then have "(of_nat n :: rat) \<le> 2 ^ k" by simp
  with rn have rk: "r \<le> 2 ^ k" by (rule order_trans)
  from b(1) have "(of_nat (2 ^ ilog2 (n - 1)) :: rat) \<le> of_nat (n - 1)"
    by (simp only: of_nat_le_iff)
  with n2 have "(2 :: rat) ^ ilog2 (n - 1) \<le> of_nat n - 1" by (simp add: of_nat_diff)
  then have kr: "(2 :: rat) ^ ilog2 (n - 1) < r" using nr by (rule le_less_trans)
  have e: "binade q = - int k"
    using False n2 by (simp add: binade_def n_def r_def k_def Let_def)
  from rk assms have l: "1 / 2 ^ k \<le> q"
    by (simp add: r_def field_simps)
  from kr assms have u: "q < 1 / 2 ^ ilog2 (n - 1)"
    by (simp add: r_def field_simps)
  have e1: "binade q + 1 = - int (ilog2 (n - 1))" by (simp add: e k_def)
  from l u show ?thesis
    unfolding e1 unfolding e by (simp only: pow2_neg simp_thms)
qed

lemma round_even_cases:
  obtains "q - of_int \<lfloor>q\<rfloor> < 1 / 2" "round_even q = \<lfloor>q\<rfloor>"
  | "1 / 2 < q - of_int \<lfloor>q\<rfloor>" "round_even q = \<lfloor>q\<rfloor> + 1"
  | "q - of_int \<lfloor>q\<rfloor> = 1 / 2" "even (round_even q)"
      "round_even q = \<lfloor>q\<rfloor> \<or> round_even q = \<lfloor>q\<rfloor> + 1"
proof (cases "q - of_int \<lfloor>q\<rfloor> < 1 / 2")
  case True
  then show ?thesis by (intro that(1)) (simp_all add: round_even_def Let_def)
next
  case False
  show ?thesis
  proof (cases "1 / 2 < q - of_int \<lfloor>q\<rfloor>")
    case True
    with False show ?thesis by (intro that(2)) (simp_all add: round_even_def Let_def)
  next
    case h: False
    with False have e: "q - of_int \<lfloor>q\<rfloor> = 1 / 2" by simp
    then show ?thesis by (intro that(3)) (simp_all add: round_even_def Let_def)
  qed
qed

lemma round_even_nearest: "\<bar>of_int (round_even q) - q\<bar> \<le> 1 / 2"
proof -
  have f: "of_int \<lfloor>q\<rfloor> \<le> q" "q < of_int \<lfloor>q\<rfloor> + 1" by linarith+
  show ?thesis
  proof (cases q rule: round_even_cases)
    case 1
    with f show ?thesis by simp
  next
    case 2
    with f show ?thesis by simp
  next
    case 3
    from 3(3) show ?thesis
    proof
      assume "round_even q = \<lfloor>q\<rfloor>"
      with 3(1) f show ?thesis by simp
    next
      assume "round_even q = \<lfloor>q\<rfloor> + 1"
      with 3(1) f show ?thesis by simp
    qed
  qed
qed

lemma round_even_tie:
  assumes "\<bar>of_int (round_even q) - q\<bar> = 1 / 2"
  shows "even (round_even q)"
proof -
  have f: "of_int \<lfloor>q\<rfloor> \<le> q" "q < of_int \<lfloor>q\<rfloor> + 1" by linarith+
  show ?thesis
  proof (cases q rule: round_even_cases)
    case 1
    with f assms show ?thesis by simp
  next
    case 2
    with f assms show ?thesis by simp
  next
    case 3
    then show ?thesis by simp
  qed
qed

lemma round_even_mono: "of_int k \<le> q \<Longrightarrow> k \<le> round_even q"
  by (auto simp: round_even_def Let_def le_floor_iff intro: order_trans [of k "\<lfloor>q\<rfloor>"])

lemma round_even_upper: "q \<le> of_int k \<Longrightarrow> round_even q \<le> k"
proof -
  assume a: "q \<le> of_int k"
  have f: "of_int \<lfloor>q\<rfloor> \<le> q" by linarith
  show ?thesis
  proof (cases "q = of_int k")
    case True
    then show ?thesis by (simp add: round_even_def Let_def)
  next
    case False
    with a have "q < of_int k" by simp
    then have "\<lfloor>q\<rfloor> < k" by (simp add: floor_less_iff)
    then show ?thesis by (simp add: round_even_def Let_def)
  qed
qed

text \<open>
  The result of \<open>double\<close> is a multiple of the unit of the binade, with a significand of 53
  bits, and it is as near to the argument as such a multiple can be.
\<close>

lemma double_nearest:
  assumes "q \<noteq> 0"
  shows "\<exists>m. double q = sgn q * of_int m * pow2 (binade \<bar>q\<bar> - 52)
           \<and> 2 ^ 52 \<le> m \<and> m \<le> 2 ^ 53
           \<and> \<bar>double q - q\<bar> \<le> pow2 (binade \<bar>q\<bar> - 52) / 2"
proof -
  define a where "a = \<bar>q\<bar>"
  define u where "u = pow2 (binade a - 52)"
  define m where "m = round_even (a / u)"
  from assms have a: "0 < a" by (simp add: a_def)
  have u: "0 < u" by (simp add: u_def pow2_pos)
  from binade_bounds [OF a] have b: "pow2 (binade a) \<le> a" "a < pow2 (binade a + 1)" by simp_all
  have "binade a = 52 + (binade a - 52)" by simp
  then have "pow2 (binade a) = pow2 52 * pow2 (binade a - 52)" by (metis pow2_add)
  then have p52: "pow2 (binade a) = 2 ^ 52 * u" by (simp add: u_def pow2_def [of 52])
  have "binade a + 1 = 53 + (binade a - 52)" by simp
  then have "pow2 (binade a + 1) = pow2 53 * pow2 (binade a - 52)" by (metis pow2_add)
  then have p53: "pow2 (binade a + 1) = 2 ^ 53 * u" by (simp add: u_def pow2_def [of 53])
  from b(1) have "2 ^ 52 * u \<le> a" by (simp only: p52)
  with u have "2 ^ 52 \<le> a / u" by (simp add: field_simps)
  then have "of_int (2 ^ 52) \<le> a / u" by simp
  then have l: "2 ^ 52 \<le> m" unfolding m_def by (rule round_even_mono)
  from b(2) have "a < 2 ^ 53 * u" by (simp only: p53)
  with u have "a / u \<le> 2 ^ 53" by (simp add: field_simps)
  then have "a / u \<le> of_int (2 ^ 53)" by simp
  then have h: "m \<le> 2 ^ 53" unfolding m_def by (rule round_even_upper)
  have d: "double q = sgn q * of_int m * u"
    using assms by (simp add: double_def Let_def a_def u_def m_def)
  have "\<bar>of_int m - a / u\<bar> \<le> 1 / 2" unfolding m_def by (rule round_even_nearest)
  then have "\<bar>of_int m - a / u\<bar> * u \<le> 1 / 2 * u" using u by (simp only: mult_le_cancel_right) simp
  moreover have "\<bar>of_int m - a / u\<bar> * u = \<bar>of_int m * u - a\<bar>"
  proof -
    have "(of_int m - a / u) * u = of_int m * u - a" using u by (simp add: field_simps)
    then have "\<bar>of_int m * u - a\<bar> = \<bar>of_int m - a / u\<bar> * \<bar>u\<bar>"
      by (simp only: abs_mult [symmetric])
    with u show ?thesis by simp
  qed
  moreover have "\<bar>double q - q\<bar> = \<bar>of_int m * u - a\<bar>"
  proof (cases "0 < q")
    case True
    then have "double q - q = of_int m * u - a" by (simp add: d a_def)
    then show ?thesis by simp
  next
    case False
    with assms have "q < 0" by simp
    then have "double q - q = - (of_int m * u - a)" by (simp add: d a_def)
    then show ?thesis by (simp only: abs_minus_cancel)
  qed
  ultimately have "\<bar>double q - q\<bar> \<le> u / 2" by simp
  with d l h show ?thesis unfolding u_def a_def by blast
qed


lemma pow2_mono: "j \<le> k \<Longrightarrow> pow2 j \<le> pow2 k"
proof -
  assume "j \<le> k"
  then have "1 \<le> pow2 (k - j)" by (simp add: pow2_def)
  moreover have "pow2 k = pow2 j * pow2 (k - j)" using pow2_add [of j "k - j"] by simp
  ultimately show ?thesis using pow2_pos [of j] by simp
qed

lemma binade_eqI:
  assumes "pow2 e \<le> q" "q < pow2 (e + 1)"
  shows "binade q = e"
proof -
  have "0 < q" using assms(1) pow2_pos [of e] by simp
  from binade_bounds [OF this]
  have b: "pow2 (binade q) \<le> q" "q < pow2 (binade q + 1)" by simp_all
  show ?thesis
  proof (rule ccontr)
    assume "binade q \<noteq> e"
    then consider "binade q + 1 \<le> e" | "e + 1 \<le> binade q" by linarith
    then show False
    proof cases
      case 1
      then have "pow2 (binade q + 1) \<le> pow2 e" by (rule pow2_mono)
      with b(2) assms(1) show False by simp
    next
      case 2
      then have "pow2 (e + 1) \<le> pow2 (binade q)" by (rule pow2_mono)
      with b(1) assms(2) show False by simp
    qed
  qed
qed

lemma round_even_eqI:
  assumes "\<bar>q - of_int k\<bar> < 1 / 2"
  shows "round_even q = k"
proof -
  have "\<bar>of_int (round_even q) - q\<bar> \<le> 1 / 2" by (rule round_even_nearest)
  with assms have "\<bar>(of_int (round_even q) :: rat) - of_int k\<bar> < 1" by linarith
  then have "\<bar>(of_int (round_even q - k) :: rat)\<bar> < 1" by simp
  then have "\<bar>round_even q - k\<bar> < 1" by (simp only: of_int_abs [symmetric] of_int_less_1_iff)
  then show ?thesis by simp
qed

text \<open>
  The quotient of 7 by 100 and its product with 100 are both rounded: the result is the
  double next above 7.
\<close>

lemma double_seven_hundredths: "double (7 / 100) = 1261007895663739 / 2 ^ 54"
proof -
  have b: "binade \<bar>7 / 100\<bar> = - 4" by (rule binade_eqI) (simp_all add: pow2_def)
  have r: "round_even (\<bar>7 / 100\<bar> / pow2 (- 4 - 52)) = 5044031582654956"
    by (rule round_even_eqI) (simp add: pow2_def)
  show ?thesis
    unfolding double_def Let_def b r by (simp add: pow2_def)
qed

lemma double_rounds_twice: "double (double (7 / 100) * 100) = 7 + 1 / 2 ^ 50"
proof -
  have b: "binade \<bar>1261007895663739 / 2 ^ 54 * 100\<bar> = 2"
    by (rule binade_eqI) (simp_all add: pow2_def)
  have r: "round_even (\<bar>1261007895663739 / 2 ^ 54 * 100\<bar> / pow2 (2 - 52)) = 7881299347898369"
    by (rule round_even_eqI) (simp add: pow2_def)
  show ?thesis
    unfolding double_seven_hundredths unfolding double_def Let_def b r by (simp add: pow2_def)
qed


section \<open>Properties of the pixel comparator\<close>

lemma sint_word_of_int_32:
  "- (2 ^ 31) \<le> k \<Longrightarrow> k < 2 ^ 31 \<Longrightarrow> sint (word_of_int k :: 32 word) = k"
  by (simp add: sint_sbintrunc' signed_take_bit_int_eq_self)

lemma pixel_idx_small:
  assumes "p < 2 ^ 29" and "p = w * y + x"
  shows "pixel_idx w x y = int (4 * p)"
proof -
  have "push_bit 2 (word_of_nat p :: 32 word) = word_of_int (4 * int p)"
    by (simp add: push_bit_eq_mult)
  moreover have "sint (word_of_int (4 * int p) :: 32 word) = 4 * int p"
    using assms(1) by (intro sint_word_of_int_32) simp_all
  ultimately show ?thesis
    unfolding pixel_idx_def assms(2)[symmetric] by (simp only: of_nat_mult of_nat_numeral)
qed

lemma rows_concat: "concat (map (\<lambda>y. map (\<lambda>x. w * y + x) [0..<w]) [0..<h]) = [0..<w * h]"
proof (induction h)
  case 0 show ?case by simp
next
  case (Suc h)
  have "map (\<lambda>x. w * h + x) [0..<w] = [w * h..<w * h + w]"
    by (simp add: map_add_upt add.commute)
  moreover have "[0..<w * h] @ [w * h..<w * h + w] = [0..<w * h + w]"
    by (metis upt_add_eq_append le0)
  moreover have "w * Suc h = w * h + w" by simp
  ultimately show ?case using Suc by (simp del: mult_Suc_right)
qed

lemma buf_read_in_range: "i < length buf \<Longrightarrow> buf_read buf (int i) = Some (unat (buf ! i))"
  by (simp add: buf_read_def)

lemma abs_diff_Some:
  "abs_diff (Some m) (Some n) = Some (if m \<le> n then n - m else m - n)"
  by (simp add: abs_diff_def)

lemma js_max_Some: "js_max (Some m) (Some n) = Some (max m n)"
  by (simp add: js_max_def)

lemma pixelDiff_in_range:
  assumes "4 * p + 3 < length (data b)" "4 * p + 3 < length (data c)"
  shows "pixelDiff b c (int (4 * p)) = Some (max_channel_diff b c p)"
proof -
  have i: "int (4 * p) + 1 = int (4 * p + 1)" "int (4 * p) + 2 = int (4 * p + 2)"
    "int (4 * p) + 3 = int (4 * p + 3)" by simp_all
  have rb: "buf_read (data b) (int (4 * p + k)) = Some (unat (data b ! (4 * p + k)))"
    if "k \<le> 3" for k
    by (rule buf_read_in_range) (use assms that in simp)
  have rc: "buf_read (data c) (int (4 * p + k)) = Some (unat (data c ! (4 * p + k)))"
    if "k \<le> 3" for k
    by (rule buf_read_in_range) (use assms that in simp)
  note r = rb rc
  have r0: "buf_read (data b) (int (4 * p)) = Some (unat (data b ! (4 * p)))"
    "buf_read (data c) (int (4 * p)) = Some (unat (data c ! (4 * p)))"
    using r [of 0] by simp_all
  show ?thesis
    unfolding pixelDiff_def Let_def i max_channel_diff_def channel_diff_def
    by (simp only: r r0 abs_diff_Some js_max_Some le_numeral_extra numeral_le_iff
        semiring_norm One_nat_def[symmetric] one_le_numeral)
qed

lemma position_bound:
  assumes "x < w" "y < (h::nat)"
  shows "w * y + x < w * h"
proof -
  have "w * y + x < w * y + w" using assms by simp
  also have "\<dots> = w * Suc y" by simp
  also have "\<dots> \<le> w * h" using assms by (intro mult_le_mono2) simp
  finally show ?thesis .
qed

lemma counted_iff:
  assumes "decoded b" "decoded c" "width b = width c" "height b = height c"
    and "x < width b" "y < height b"
  shows "exceeds (pixelDiff b c (pixel_idx (width b) x y)) t
         \<longleftrightarrow> pixel_different t b c (width b * y + x)"
proof -
  let ?p = "width b * y + x"
  have p: "?p < width b * height b" using assms by (intro position_bound)
  then have "?p < 2 ^ 29" using assms(1) by (simp add: decoded_def)
  then have idx: "pixel_idx (width b) x y = int (4 * ?p)"
    by (rule pixel_idx_small) simp
  have "4 * ?p + 3 < length (data b)" "4 * ?p + 3 < length (data c)"
    using p assms(1-4) by (simp_all add: decoded_def)
  then have "pixelDiff b c (int (4 * ?p)) = Some (max_channel_diff b c ?p)"
    by (rule pixelDiff_in_range)
  then show ?thesis
    unfolding idx by (simp add: exceeds_def pixel_different_def)
qed

lemma fst_compare_pixel:
  "fst (compare_pixel cmp b c y x st) =
     fst st + (if exceeds (pixelDiff b c (pixel_idx (width b) x y)) (pixelThreshold cmp) then 1 else 0)"
  by (simp add: compare_pixel_def Let_def)

lemma fst_fold_compare_pixel:
  "fst (fold (compare_pixel cmp b c y) xs st) =
     fst st + length (filter (\<lambda>x. exceeds (pixelDiff b c (pixel_idx (width b) x y)) (pixelThreshold cmp)) xs)"
  by (induction xs arbitrary: st) (simp_all add: fst_compare_pixel)

lemma fst_fold_compare_row:
  "fst (fold (compare_row cmp b c) ys st) =
     fst st + length (filter (\<lambda>(y, x). exceeds (pixelDiff b c (pixel_idx (width b) x y)) (pixelThreshold cmp))
                (concat (map (\<lambda>y. map (\<lambda>x. (y, x)) [0..<width b]) ys)))"
  by (induction ys arbitrary: st)
     (simp_all add: compare_row_def fst_fold_compare_pixel filter_map o_def)

lemma count_pixels:
  assumes "decoded b" "decoded c" "width b = width c" "height b = height c"
  shows "fst (compare_pixels cmp b c) =
           length (filter (pixel_different (pixelThreshold cmp) b c) [0..<width b * height b])"
proof -
  let ?E = "\<lambda>(y, x). exceeds (pixelDiff b c (pixel_idx (width b) x y)) (pixelThreshold cmp)"
  let ?P = "pixel_different (pixelThreshold cmp) b c"
  let ?pos = "concat (map (\<lambda>y. map (\<lambda>x. (y, x)) [0..<width b]) [0..<height b])"
  have iff: "exceeds (pixelDiff b c (pixel_idx (width b) x y)) (pixelThreshold cmp)
         \<longleftrightarrow> ?P (width b * y + x)" if "x < width b" "y < height b" for x y
    using assms that by (rule counted_iff)
  have "filter ?E ?pos = filter (?P \<circ> (\<lambda>(y, x). width b * y + x)) ?pos"
    by (rule filter_cong) (auto simp: iff)
  then have "length (filter ?E ?pos) = length (filter ?P (map (\<lambda>(y, x). width b * y + x) ?pos))"
    by (simp add: filter_map)
  also have "map (\<lambda>(y, x). width b * y + x) ?pos
               = concat (map (\<lambda>y. map (\<lambda>x. width b * y + x) [0..<width b]) [0..<height b])"
    by (simp add: map_concat o_def)
  also have "\<dots> = [0..<width b * height b]" by (rule rows_concat)
  finally show ?thesis
    by (simp add: compare_pixels_def fst_fold_compare_row)
qed

lemma compareScreenshots_same_size:
  assumes "width b = width c" "height b = height c"
  shows "diffPixels (fst (compareScreenshots cmp b c out)) = fst (compare_pixels cmp b c)"
    and "diffPercentage (fst (compareScreenshots cmp b c out))
           = percentage (fst (compare_pixels cmp b c)) (width b * height b)"
  using assms by (simp_all add: compareScreenshots_def Let_def split: option.splits)

text \<open>Seven differing pixels of a hundred are a little more than 7 percent.\<close>

lemma percentage_seven_of_hundred: "percentage 7 100 = Num (7 + 1 / 2 ^ 50)"
  by (simp add: percentage_def double_rounds_twice)

text \<open>
  Claim C6. When the widths or the heights of the two decoded images differ, the comparison
  returns no match with a difference of 100 percent, whatever the thresholds are; the number
  of differing pixels it reports is the pixel count of the baseline image; and no pixel is
  compared: the outcome is the same for every content of the two pixel buffers, and no diff
  image is produced.
\<close>

theorem dimension_mismatch_is_full_difference:
  assumes "width baseline \<noteq> width current \<or> height baseline \<noteq> height current"
  shows "compareScreenshots cmp baseline current out =
           (\<lparr>isMatch = False, diffPercentage = Num 100,
             diffPixels = width baseline * height baseline,
             totalPixels = width baseline * height baseline,
             diffImagePath = None\<rparr>, None)
       \<and> compareScreenshots cmp (baseline\<lparr>data := d1\<rparr>) (current\<lparr>data := d2\<rparr>) out
           = compareScreenshots cmp baseline current out"
  using assms by (simp add: compareScreenshots_def)

theorem dimension_mismatch_witness:
  "width \<lparr>width = 2, height = 1, data = [1, 2, 3, 4, 5, 6, 7, 8]\<rparr>
      \<noteq> width \<lparr>width = 1, height = 1, data = [1, 2, 3, 4]\<rparr>
   \<and> compareScreenshots (new_comparator (Some 100) (Some 255))
        \<lparr>width = 2, height = 1, data = [1, 2, 3, 4, 5, 6, 7, 8]\<rparr>
        \<lparr>width = 1, height = 1, data = [1, 2, 3, 4]\<rparr> (Some ''diff.png'')
      = (\<lparr>isMatch = False, diffPercentage = Num 100, diffPixels = 2, totalPixels = 2,
          diffImagePath = None\<rparr>, None)"
  using dimension_mismatch_is_full_difference
    [of "\<lparr>width = 2, height = 1, data = [1, 2, 3, 4, 5, 6, 7, 8]\<rparr>"
        "\<lparr>width = 1, height = 1, data = [1, 2, 3, 4]\<rparr>"
        "new_comparator (Some 100) (Some 255)" "Some ''diff.png''"]
  by simp

text \<open>
  Claim C7. For two decoded images of equal size, the loop counts the pixel at column \<open>x\<close>
  of row \<open>y\<close> exactly when the maximum of its four per-channel absolute differences is
  strictly greater than the per-pixel threshold, and the count it returns is the number of
  such pixels. Hence, when no pixel exceeds the threshold (as with the default threshold 10
  and pixels that differ by 5 in every channel), no pixel is counted and the difference is
  0 percent.
\<close>

theorem pixel_counted_iff_above_threshold:
  assumes "decoded baseline" "decoded current"
    and "width baseline = width current" "height baseline = height current"
  shows "(\<forall>x<width baseline. \<forall>y<height baseline.
            exceeds (pixelDiff baseline current (pixel_idx (width baseline) x y)) (pixelThreshold cmp)
            \<longleftrightarrow> pixelThreshold cmp
                  < of_nat (max_channel_diff baseline current (width baseline * y + x)))
       \<and> diffPixels (fst (compareScreenshots cmp baseline current out))
           = length (filter (pixel_different (pixelThreshold cmp) baseline current)
                       [0..<width baseline * height baseline])
       \<and> ((\<forall>p<width baseline * height baseline.
              of_nat (max_channel_diff baseline current p) \<le> pixelThreshold cmp)
            \<longrightarrow> diffPixels (fst (compareScreenshots cmp baseline current out)) = 0
              \<and> diffPercentage (fst (compareScreenshots cmp baseline current out)) = Num 0)"
proof (intro conjI allI impI)
  fix x y assume xy: "x < width baseline" "y < height baseline"
  show "exceeds (pixelDiff baseline current (pixel_idx (width baseline) x y)) (pixelThreshold cmp)
            \<longleftrightarrow> pixelThreshold cmp
                  < of_nat (max_channel_diff baseline current (width baseline * y + x))"
    using counted_iff [OF assms xy] by (simp only: pixel_different_def)
next
  show n: "diffPixels (fst (compareScreenshots cmp baseline current out))
           = length (filter (pixel_different (pixelThreshold cmp) baseline current)
                       [0..<width baseline * height baseline])"
    using assms by (simp add: compareScreenshots_same_size count_pixels)
  assume le: "\<forall>p<width baseline * height baseline.
              of_nat (max_channel_diff baseline current p) \<le> pixelThreshold cmp"
  then have "filter (pixel_different (pixelThreshold cmp) baseline current)
                [0..<width baseline * height baseline] = []"
    by (auto simp: filter_empty_conv pixel_different_def not_less)
  with n show z: "diffPixels (fst (compareScreenshots cmp baseline current out)) = 0"
    by simp
  have "0 < width baseline * height baseline"
    using assms(1) by (simp add: decoded_def)
  with z show "diffPercentage (fst (compareScreenshots cmp baseline current out)) = Num 0"
    using assms(3,4) by (simp add: compareScreenshots_same_size percentage_def)
qed

theorem pixel_counted_witness:
  "decoded \<lparr>width = 2, height = 1, data = [10, 20, 30, 255, 1, 2, 3, 4]\<rparr>
   \<and> decoded \<lparr>width = 2, height = 1, data = [15, 25, 35, 250, 1, 2, 3, 4]\<rparr>
   \<and> pixelThreshold (new_comparator None None) = 10
   \<and> max_channel_diff \<lparr>width = 2, height = 1, data = [10, 20, 30, 255, 1, 2, 3, 4]\<rparr>
        \<lparr>width = 2, height = 1, data = [15, 25, 35, 250, 1, 2, 3, 4]\<rparr> 0 = 5
   \<and> diffPixels (fst (compareScreenshots (new_comparator None None)
        \<lparr>width = 2, height = 1, data = [10, 20, 30, 255, 1, 2, 3, 4]\<rparr>
        \<lparr>width = 2, height = 1, data = [15, 25, 35, 250, 1, 2, 3, 4]\<rparr> None)) = 0
   \<and> diffPercentage (fst (compareScreenshots (new_comparator None None)
        \<lparr>width = 2, height = 1, data = [10, 20, 30, 255, 1, 2, 3, 4]\<rparr>
        \<lparr>width = 2, height = 1, data = [15, 25, 35, 250, 1, 2, 3, 4]\<rparr> None)) = Num 0"
proof -
  let ?b = "\<lparr>width = 2, height = 1, data = [10, 20, 30, 255, 1, 2, 3, 4 :: 8 word]\<rparr>"
  let ?c = "\<lparr>width = 2, height = 1, data = [15, 25, 35, 250, 1, 2, 3, 4 :: 8 word]\<rparr>"
  have d: "decoded ?b" "decoded ?c" by (simp_all add: decoded_def)
  have t: "pixelThreshold (new_comparator None None) = 10"
    by (simp add: new_comparator_def num_or_def)
  have m0: "max_channel_diff ?b ?c 0 = 5"
    by (simp add: max_channel_diff_def channel_diff_def)
  have m1: "max_channel_diff ?b ?c 1 = 0"
    by (simp add: max_channel_diff_def channel_diff_def)
  have le: "\<forall>p<width ?b * height ?b.
      of_nat (max_channel_diff ?b ?c p) \<le> pixelThreshold (new_comparator None None)"
  proof (intro allI impI)
    fix p assume "p < width ?b * height ?b"
    then have "p = 0 \<or> p = 1" by auto
    then show "of_nat (max_channel_diff ?b ?c p) \<le> pixelThreshold (new_comparator None None)"
      using m0 m1 t by auto
  qed
  have w: "width ?b = width ?c" and h: "height ?b = height ?c" by simp_all
  note r = pixel_counted_iff_above_threshold
    [OF d w h, of "new_comparator None None" None, THEN conjunct2, THEN conjunct2, THEN mp, OF le]
  from r d t m0 show ?thesis
    by (intro conjI) (rule conjunct1, assumption | rule conjunct2, assumption | assumption)+
qed

section \<open>Properties of the text similarity\<close>


lemma lev_cell_col0: "lev_cell s1 s2 i 0 = i"
  by (cases i) simp_all

lemma lev_cell_sym: "lev_cell s1 s2 i j = lev_cell s2 s1 j i"
proof (induction s1 s2 i j rule: lev_cell.induct)
  case (1 s1 s2 j)
  show ?case by (simp add: lev_cell_col0)
next
  case (2 s1 s2 i)
  show ?case by simp
next
  case (3 s1 s2 i j)
  show ?case
  proof (cases "s2 ! i = s1 ! j")
    case True
    with 3 show ?thesis by simp
  next
    case False
    then have ne: "s1 ! j \<noteq> s2 ! i" by simp
    from False 3 have a: "lev_cell s1 s2 i j = lev_cell s2 s1 j i"
      and b: "lev_cell s1 s2 (Suc i) j = lev_cell s2 s1 j (Suc i)"
      and c: "lev_cell s1 s2 i (Suc j) = lev_cell s2 s1 (Suc j) i" by simp_all
    show ?thesis
      using False ne by (simp add: a b c min.assoc min.left_commute min.commute)
  qed
qed

lemma length_lev_row [simp]: "length (lev_row s1 s2 k n) = n"
  by (simp add: lev_row_def)

lemma nth_lev_row [simp]: "c < n \<Longrightarrow> lev_row s1 s2 k n ! c = Some (lev_cell s1 s2 k c)"
  by (simp add: lev_row_def)

lemma length_mat_at [simp]: "length (mat_at s1 s2 i j) = Suc (length s2)"
  by (simp add: mat_at_def)

lemma nth_mat_at:
  "k \<le> length s2 \<Longrightarrow>
   mat_at s1 s2 i j ! k =
     lev_row s1 s2 k (if k < i then Suc (length s1) else if k = i then j else 1)"
  unfolding mat_at_def by (subst nth_map_upt) simp_all

lemma mget_mat_at_above:
  "k < i \<Longrightarrow> k \<le> length s2 \<Longrightarrow> c \<le> length s1 \<Longrightarrow>
   mget (mat_at s1 s2 i j) k c = Some (lev_cell s1 s2 k c)"
  by (simp add: mget_def nth_mat_at)

lemma mget_mat_at_current:
  "i \<le> length s2 \<Longrightarrow> c < j \<Longrightarrow>
   mget (mat_at s1 s2 i j) i c = Some (lev_cell s1 s2 i c)"
  by (simp add: mget_def nth_mat_at)

lemma lev_row_Suc: "lev_row s1 s2 k (Suc n) = lev_row s1 s2 k n @ [Some (lev_cell s1 s2 k n)]"
  by (simp add: lev_row_def)

lemma mset_mat_at:
  assumes "i \<le> length s2"
  shows "mset_cell (mat_at s1 s2 i j) i j (Some (lev_cell s1 s2 i j)) = mat_at s1 s2 i (Suc j)"
proof (rule nth_equalityI)
  show "length (mset_cell (mat_at s1 s2 i j) i j (Some (lev_cell s1 s2 i j)))
          = length (mat_at s1 s2 i (Suc j))"
    by (simp add: mset_cell_def)
next
  fix k assume "k < length (mset_cell (mat_at s1 s2 i j) i j (Some (lev_cell s1 s2 i j)))"
  then have k: "k \<le> length s2" by (simp add: mset_cell_def split: if_splits)
  show "mset_cell (mat_at s1 s2 i j) i j (Some (lev_cell s1 s2 i j)) ! k
          = mat_at s1 s2 i (Suc j) ! k"
  proof (cases "k = i")
    case True
    then show ?thesis
      using assms by (simp add: mset_cell_def nth_mat_at row_put_def lev_row_Suc)
  next
    case False
    then show ?thesis
      using assms k by (simp add: mset_cell_def nth_mat_at)
  qed
qed

lemma lev_step_mat_at:
  assumes "1 \<le> i" "i \<le> length s2" "1 \<le> j" "j \<le> length s1"
  shows "lev_step s1 s2 i j (mat_at s1 s2 i j) = mat_at s1 s2 i (Suc j)"
proof -
  obtain i' j' where ij: "i = Suc i'" "j = Suc j'"
    using assms by (cases i; cases j) simp_all
  have ch: "charAt s2 (i - 1) = charAt s1 (j - 1) \<longleftrightarrow> s2 ! i' = s1 ! j'"
    using assms ij by (simp add: charAt_def)
  have d: "mget (mat_at s1 s2 i j) (i - 1) (j - 1) = Some (lev_cell s1 s2 i' j')"
    using assms ij by (simp add: mget_mat_at_above)
  have l: "mget (mat_at s1 s2 i j) i (j - 1) = Some (lev_cell s1 s2 i j')"
    using assms ij by (simp add: mget_mat_at_current)
  have u: "mget (mat_at s1 s2 i j) (i - 1) j = Some (lev_cell s1 s2 i' j)"
    using assms ij by (simp add: mget_mat_at_above)
  have "lev_step s1 s2 i j (mat_at s1 s2 i j)
          = mset_cell (mat_at s1 s2 i j) i j (Some (lev_cell s1 s2 i j))"
    unfolding lev_step_def ch d l u
    by (simp add: ij cell_min_def cell_succ_def)
  then show ?thesis using assms by (simp add: mset_mat_at)
qed

lemma fold_lev_step:
  assumes "1 \<le> i" "i \<le> length s2" "n \<le> length s1"
  shows "fold (lev_step s1 s2 i) [1..<Suc n] (mat_at s1 s2 i 1) = mat_at s1 s2 i (Suc n)"
  using assms(3)
proof (induction n)
  case 0
  show ?case by simp
next
  case (Suc n)
  then have "fold (lev_step s1 s2 i) [1..<Suc n] (mat_at s1 s2 i 1) = mat_at s1 s2 i (Suc n)"
    by simp
  moreover have "lev_step s1 s2 i (Suc n) (mat_at s1 s2 i (Suc n)) = mat_at s1 s2 i (Suc (Suc n))"
    using assms(1,2) Suc.prems by (intro lev_step_mat_at) simp_all
  ultimately show ?case by simp
qed

lemma mat_at_next_row: "mat_at s1 s2 i (Suc (length s1)) = mat_at s1 s2 (Suc i) 1"
  unfolding mat_at_def by (rule map_cong) auto

lemma fold_rows:
  assumes "n \<le> length s2"
  shows "fold (\<lambda>i m. fold (lev_step s1 s2 i) [1..<Suc (length s1)] m) [1..<Suc n] (mat_at s1 s2 1 1)
           = mat_at s1 s2 (Suc n) 1"
  using assms
proof (induction n)
  case 0
  show ?case by simp
next
  case (Suc n)
  then have "fold (\<lambda>i m. fold (lev_step s1 s2 i) [1..<Suc (length s1)] m) [1..<Suc n] (mat_at s1 s2 1 1)
           = mat_at s1 s2 (Suc n) 1" by simp
  moreover have "fold (lev_step s1 s2 (Suc n)) [1..<Suc (length s1)] (mat_at s1 s2 (Suc n) 1)
           = mat_at s1 s2 (Suc n) (Suc (length s1))"
    using Suc.prems by (intro fold_lev_step) simp_all
  ultimately show ?case by (simp add: mat_at_next_row)
qed

lemma init_rows: "fold (\<lambda>i m. m @ [[Some i]]) [0..<n] [] = map (\<lambda>i. [Some i]) [0..<n]"
  by (induction n) simp_all

lemma init_row0:
  assumes "0 < length m" "m ! 0 = [Some 0]"
  shows "fold (\<lambda>j m. mset_cell m 0 j (Some j)) [0..<Suc n] m = m[0 := map Some [0..<Suc n]]"
proof (induction n)
  case 0
  show ?case using assms by (simp add: mset_cell_def row_put_def)
next
  case (Suc n)
  have "fold (\<lambda>j m. mset_cell m 0 j (Some j)) [0..<Suc (Suc n)] m
          = mset_cell (m[0 := map Some [0..<Suc n]]) 0 (Suc n) (Some (Suc n))"
    using Suc by simp
  also have "\<dots> = m[0 := map Some [0..<Suc (Suc n)]]"
    using assms(1) by (simp add: mset_cell_def row_put_def)
  finally show ?case .
qed

lemma lev_row_one: "lev_row s1 s2 k (Suc 0) = [Some k]"
  by (simp add: lev_row_def lev_cell_col0)

lemma init_mat_at:
  "(map (\<lambda>i. [Some i]) [0..<Suc (length s2)])[0 := map Some [0..<Suc (length s1)]] = mat_at s1 s2 1 1"
proof (rule nth_equalityI)
  show "length ((map (\<lambda>i. [Some i]) [0..<Suc (length s2)])[0 := map Some [0..<Suc (length s1)]])
          = length (mat_at s1 s2 1 1)" by simp
next
  fix k assume "k < length ((map (\<lambda>i. [Some i]) [0..<Suc (length s2)])[0 := map Some [0..<Suc (length s1)]])"
  then have k: "k \<le> length s2" by simp
  show "(map (\<lambda>i. [Some i]) [0..<Suc (length s2)])[0 := map Some [0..<Suc (length s1)]] ! k
          = mat_at s1 s2 1 1 ! k"
  proof (cases "k = 0")
    case True
    then show ?thesis by (simp add: nth_mat_at lev_row_def del: upt_Suc)
  next
    case False
    have "(map (\<lambda>i. [Some i]) [0..<Suc (length s2)]) ! k = [Some k]"
      using k by (subst nth_map_upt) simp_all
    then show ?thesis
      using False k by (simp add: nth_mat_at lev_row_one del: upt_Suc)
  qed
qed

lemma levenshteinDistance_eq:
  "levenshteinDistance s1 s2 = Some (lev_cell s1 s2 (length s2) (length s1))"
proof -
  have m0: "fold (\<lambda>i m. m @ [[Some i]]) [0..<Suc (length s2)] []
              = map (\<lambda>i. [Some i]) [0..<Suc (length s2)]"
    by (rule init_rows)
  have m1: "fold (\<lambda>j m. mset_cell m 0 j (Some j)) [0..<Suc (length s1)]
              (map (\<lambda>i. [Some i]) [0..<Suc (length s2)]) = mat_at s1 s2 1 1"
  proof -
    have a: "0 < length (map (\<lambda>i. [Some i]) [0..<Suc (length s2)])" by simp
    have b: "map (\<lambda>i. [Some i]) [0..<Suc (length s2)] ! 0 = [Some 0]"
      by (subst nth_map_upt) simp_all
    show ?thesis
      unfolding init_row0 [OF a b] by (rule init_mat_at)
  qed
  have m2: "fold (\<lambda>i m. fold (lev_step s1 s2 i) [1..<Suc (length s1)] m)
                 [1..<Suc (length s2)] (mat_at s1 s2 1 1) = mat_at s1 s2 (Suc (length s2)) 1"
    by (rule fold_rows) simp
  show ?thesis
    unfolding levenshteinDistance_def Let_def m0 m1 m2
    by (simp add: mget_mat_at_above)
qed

lemma levenshteinDistance_sym:
  "levenshteinDistance s1 s2 = levenshteinDistance s2 s1"
  unfolding levenshteinDistance_eq by (simp add: lev_cell_sym)

lemma calculateTextSimilarity_sym:
  "calculateTextSimilarity a b = calculateTextSimilarity b a"
proof (cases "a = b \<or> a = [] \<or> b = []")
  case True
  then show ?thesis by (auto simp: calculateTextSimilarity_def)
next
  case False
  then have ne: "a \<noteq> b" "b \<noteq> a" "a \<noteq> []" "b \<noteq> []" by auto
  consider "length a > length b" | "length a < length b" | "length a = length b"
    by linarith
  then show ?thesis
  proof cases
    case 1
    then show ?thesis using ne by (simp add: calculateTextSimilarity_def)
  next
    case 2
    then show ?thesis using ne by (simp add: calculateTextSimilarity_def)
  next
    case 3
    then show ?thesis
      using ne levenshteinDistance_sym [of a b]
      by (simp add: calculateTextSimilarity_def cong: option.case_cong)
  qed
qed

text \<open>
  Claim C9. The text similarity is symmetric in its two arguments, every string has
  similarity 100 with itself, and when exactly one of the two strings is empty the
  similarity is 0.
\<close>

theorem text_similarity_symmetric:
  "calculateTextSimilarity a b = calculateTextSimilarity b a
   \<and> calculateTextSimilarity a a = Num 100
   \<and> ((a = []) \<noteq> (b = []) \<longrightarrow> calculateTextSimilarity a b = Num 0)"
  using calculateTextSimilarity_sym [of a b]
  by (auto simp: calculateTextSimilarity_def)

theorem text_similarity_witness:
  "calculateTextSimilarity ''loading'' ''loaded'' = calculateTextSimilarity ''loaded'' ''loading''
   \<and> calculateTextSimilarity ''loaded'' ''loaded'' = Num 100
   \<and> calculateTextSimilarity '''' ''loaded'' = Num 0
   \<and> calculateTextSimilarity ''loaded'' '''' = Num 0"
  using text_similarity_symmetric [of "''loading''" "''loaded''"]
    text_similarity_symmetric [of "''''" "''loaded''"]
    text_similarity_symmetric [of "''loaded''" "''''"]
  by simp

section \<open>The composite detection strategy\<close>

lemma fold_max_ge_init: "(a::nat) \<le> fold max xs a"
proof (induction xs arbitrary: a)
  case Nil
  show ?case by simp
next
  case (Cons x xs)
  have "a \<le> max x a" by simp
  also have "\<dots> \<le> fold max xs (max x a)" by (rule Cons.IH)
  finally show ?case by simp
qed

lemma fold_max_ge_member: "(x::nat) \<in> set xs \<Longrightarrow> x \<le> fold max xs a"
proof (induction xs arbitrary: a)
  case Nil
  then show ?case by simp
next
  case (Cons y ys)
  show ?case
  proof (cases "x = y")
    case True
    have "x \<le> max y a" using True by simp
    also have "\<dots> \<le> fold max ys (max y a)" by (rule fold_max_ge_init)
    finally show ?thesis by simp
  next
    case False
    with Cons.prems have "x \<in> set ys" by simp
    then show ?thesis using Cons.IH by simp
  qed
qed

text \<open>The composite strategy resolves no earlier than any of its members.\<close>

lemma composite_not_before_member:
  assumes "strategy \<in> set strategies"
  shows "at_ms (detect page strategy) \<le> at_ms (detect page (CompositeStrategy strategies))"
proof -
  have "at_ms (detect page strategy) \<in> set (map at_ms (map (detect page) strategies))"
    using assms by (simp add: image_iff) blast
  then show ?thesis
    by (simp add: Let_def fold_max_ge_member del: set_map)
qed

text \<open>
  Claim C1 asks that the composite strategy resolves at the moment its first member resolves
  true. The code waits for every member: on a page whose network is idle 1800 ms after the
  detection has started, the network-idle member of the default composite resolves true at
  1800 ms, which is when the specification wants the composite to resolve, and the composite
  resolves with the fixed timeout at 10000 ms.
\<close>

theorem composite_waits_for_every_member:
  "detect idle_at_1800 (NetworkIdleStrategy 2000) = \<lparr>at_ms = 1800, result = True\<rparr>
   \<and> first_true_at (map (detect idle_at_1800) [NetworkIdleStrategy 2000, TimeoutStrategy 10000])
       = Some 1800
   \<and> detect idle_at_1800 createDefaultStrategy = \<lparr>at_ms = 10000, result = True\<rparr>
   \<and> detect idle_at_1800 (createFromConfig None (Some 10000)) = \<lparr>at_ms = 10000, result = True\<rparr>"
  by (simp add: idle_at_1800_def wait_for_def first_true_at_def createDefaultStrategy_def
      createFromConfig_def)

theorem composite_waits_witness:
  "at_ms (detect idle_at_1800 createDefaultStrategy) = 10000"
  using composite_waits_for_every_member by simp

section \<open>Properties of a capture session\<close>

lemmas handler_defs =
  on_launched_def on_directory_def on_instrumented_def on_navigated_def on_shot_done_def
  on_metrics_done_def on_race_over_def on_saved_def on_detected_def on_wake_def
  on_loop_shot_done_def on_loop_metrics_done_def on_page_error_def on_error_shot_done_def

lemma dispatch_cases [consumes 1, case_names launched failed loop_failed directory instrumented
    navigated shot_done metrics_initial metrics_final race_over saved detected_true
    detected_false wake_shot wake_exit loop_shot_done loop_rejected loop_metrics page_error
    error_stored error_dropped]:
  assumes "dispatch e s = Some s'"
  obtains
    "main s = Launching" "s' = s\<lparr>main := CreatingDirectory\<rparr>"
  | f where "s' = fail_with f s"
  | "main s = Racing" "s' = fail_with ScreenshotFailed (s\<lparr>loop := LoopRejected\<rparr>)"
  | d where "main s = CreatingDirectory" "s' = s\<lparr>captureDir := d, main := Instrumenting\<rparr>"
  | "main s = Instrumenting"
      "s' = s\<lparr>browserCalls := browserCalls s @ [Goto (url (config s))], main := Navigating\<rparr>"
  | now where "main s = Navigating"
      "s' = (snd (begin_shot 0 (s\<lparr>startTime := now\<rparr>)))
              \<lparr>main := MainShot Initial (fst (begin_shot 0 (s\<lparr>startTime := now\<rparr>)))\<rparr>"
  | ph sh a where "main s = MainShot ph sh" "s' = (finish_shot ph sh a s)\<lparr>main := MainMetrics ph\<rparr>"
  | m now where "main s = MainMetrics Initial"
      "s' = (loop_check now ((store_metrics m s)\<lparr>detection := Detecting\<rparr>))\<lparr>main := Racing\<rparr>"
  | m where "main s = MainMetrics Final"
      "s' = (store_metrics m s)\<lparr>main := Saving (generateManifest (store_metrics m s))\<rparr>"
  | now where "main s = Racing"
      "s' = (snd (begin_shot (now - startTime s) s))
              \<lparr>main := MainShot Final (fst (begin_shot (now - startTime s) s))\<rparr>"
  | m where "main s = Saving m"
      "s' = s\<lparr>browserCalls := browserCalls s @ [Close],
               main := Returned (m\<lparr>screenshots_of := screenshots s\<rparr>)\<rparr>"
  | now where "e = Detected True now" "detection s = Detecting"
      "s' = s\<lparr>loadingComplete := True, loadingCompleteTime := now - startTime s,
               detection := DetectSettled\<rparr>"
  | "detection s = Detecting" "s' = s\<lparr>detection := DetectSettled\<rparr>"
  | now where "loop s = Sleeping" "\<not> loadingComplete s"
      "s' = (snd (begin_shot (now - startTime s) s))
              \<lparr>loop := LoopShot (fst (begin_shot (now - startTime s) s))\<rparr>"
  | "loop s = Sleeping" "s' = s\<lparr>loop := LoopExited\<rparr>"
  | sh a where "loop s = LoopShot sh" "s' = (finish_shot Loading sh a s)\<lparr>loop := LoopMetrics\<rparr>"
  | sh where "loop s = LoopShot sh" "main s \<noteq> Racing" "s' = s\<lparr>loop := LoopRejected\<rparr>"
  | m now where "loop s = LoopMetrics" "s' = loop_check now (store_metrics m s)"
  | ty msg now where "handlers_registered s" "s' = begin_error_shot ty msg now s"
  | k where "handlers_registered s" "k < length (errorShots s)"
      "s' = finish_error_shot (errorShots s ! k)
              (s\<lparr>errorShots := take k (errorShots s) @ drop (Suc k) (errorShots s)\<rparr>)"
  | k where "s' = s\<lparr>errorShots := take k (errorShots s) @ drop (Suc k) (errorShots s)\<rparr>"
proof (cases e)
  case (Launched ok)
  with assms show ?thesis
    by (cases ok; cases "main s") (auto simp: on_launched_def intro: that(1,2))
next
  case (DirectoryCreated dir)
  with assms show ?thesis
    by (cases dir; cases "main s") (auto simp: on_directory_def intro: that(2,4))
next
  case (Instrumented ok)
  with assms show ?thesis
    by (cases ok; cases "main s") (auto simp: on_instrumented_def intro: that(2,5))
next
  case (Navigated r)
  with assms show ?thesis
    by (cases r; cases "main s") (auto simp: on_navigated_def split_beta intro: that(2,6))
next
  case (PageError ty msg now)
  with assms show ?thesis
    by (auto simp: on_page_error_def split: if_splits intro: that(19))
next
  case (ErrorShotDone k ok)
  with assms show ?thesis
    by (cases ok) (auto simp: on_error_shot_done_def Let_def split: if_splits intro: that(20,21))
next
  case (ShotDone r)
  with assms show ?thesis
    by (cases r; cases "main s") (auto simp: on_shot_done_def intro: that(2,7))
next
  case (MetricsDone m now)
  with assms show ?thesis
    by (cases "main s")
       (auto simp: on_metrics_done_def Let_def split: phase.splits intro: that(8,9))
next
  case (Wake now)
  with assms show ?thesis
    by (cases "loop s") (auto simp: on_wake_def split_beta split: if_splits intro: that(14,15))
next
  case (LoopShotDone r)
  with assms show ?thesis
    by (cases r; cases "loop s"; cases "main s = Racing")
       (auto simp: on_loop_shot_done_def split: main_pc.splits intro: that(3,16,17))
next
  case (LoopMetricsDone m now)
  with assms show ?thesis
    by (cases "loop s") (auto simp: on_loop_metrics_done_def intro: that(18))
next
  case (Detected b now)
  with assms show ?thesis
    by (cases b; cases "detection s") (auto simp: on_detected_def intro: that(12,13))
next
  case (RaceOver now)
  with assms show ?thesis
    by (cases "main s") (auto simp: on_race_over_def split_beta intro: that(10))
next
  case (ManifestSaved ok)
  with assms show ?thesis
    by (cases ok; cases "main s") (auto simp: on_saved_def intro: that(2,11))
qed

lemmas effect_defs =
  fail_with_def begin_shot_def finish_shot_def store_metrics_def begin_error_shot_def
  finish_error_shot_def loop_check_def browser_screenshot_def

lemma step_dispatch: "step e s = Some s' \<Longrightarrow> \<not> exited s \<and> dispatch e s = Some s'"
  by (simp add: step_def split: if_splits)




lemma step_no_full_page:
  assumes "step e s = Some s'" "no_full_page s"
  shows "no_full_page s'"
proof -
  from assms(1) have d: "dispatch e s = Some s'" by (simp add: step_dispatch)
  from d show ?thesis
    using assms(2)
    by (cases rule: dispatch_cases)
       (simp_all add: no_full_page_def effect_defs Let_def split: option.splits)
qed

lemma run_no_full_page: "run es s = Some s' \<Longrightarrow> no_full_page s \<Longrightarrow> no_full_page s'"
proof (induction es arbitrary: s)
  case Nil
  then show ?case by simp
next
  case (Cons e es)
  then show ?case by (auto split: option.splits dest: step_no_full_page)
qed

lemma step_config:
  assumes "step e s = Some s'"
  shows "config s' = config s"
proof -
  from assms(1) have d: "dispatch e s = Some s'" by (simp add: step_dispatch)
  from d show ?thesis
    by (cases rule: dispatch_cases)
       (simp_all add: effect_defs Let_def split: option.splits)
qed

lemma run_config: "run es s = Some s' \<Longrightarrow> config s' = config s"
proof (induction es arbitrary: s)
  case Nil
  then show ?case by simp
next
  case (Cons e es)
  then show ?case by (auto split: option.splits dest: step_config)
qed

lemma generateManifest_undetected:
  "\<not> loadingComplete s \<Longrightarrow> loadingCompleteTime s = 0 \<Longrightarrow>
   timeout_message \<in> set (issues (generateManifest s))
   \<and> loadingDuration (generateManifest s) = the_duration (config s)"
  by (simp add: generateManifest_def detectIssues_def timeout_message_def)

lemma store_metrics_fields [simp]:
  "loadingComplete (store_metrics m s) = loadingComplete s"
  "loadingCompleteTime (store_metrics m s) = loadingCompleteTime s"
  "config (store_metrics m s) = config s"
  "screenshots (store_metrics m s) = screenshots s"
  "main (store_metrics m s) = main s"
  "detection (store_metrics m s) = detection s"
  by (simp_all add: store_metrics_def split: option.splits)

lemma step_undetected:
  assumes "step e s = Some s'" "undetected s" "\<not> reports_completion e"
  shows "undetected s'"
proof -
  from assms(1) have d: "dispatch e s = Some s'" by (simp add: step_dispatch)
  from d show ?thesis
    using assms(2,3)
  proof (cases rule: dispatch_cases)
    case (metrics_final m)
    then show ?thesis
      using assms(2) generateManifest_undetected [of "store_metrics m s"]
      by (simp add: undetected_def manifest_of_def)
  qed (simp_all add: undetected_def manifest_of_def fail_with_def begin_shot_def finish_shot_def
         begin_error_shot_def finish_error_shot_def loop_check_def Let_def)
qed

lemma run_undetected:
  "run es s = Some s' \<Longrightarrow> undetected s \<Longrightarrow> list_all (\<lambda>e. \<not> reports_completion e) es
   \<Longrightarrow> undetected s'"
proof (induction es arbitrary: s)
  case Nil
  then show ?case by simp
next
  case (Cons e es)
  then show ?case by (auto split: option.splits dest: step_undetected)
qed

lemma new_capturer_undetected: "undetected (new_capturer cfg)"
  by (simp add: undetected_def new_capturer_def manifest_of_def)

lemma scan_append:
  "scan q (xs @ [x]) = (case scan q xs of None \<Rightarrow> None | Some q' \<Rightarrow> scan q' [x])"
  by (induction xs arbitrary: q) simp_all

lemma in_set_add [simp]: "i \<in> set (set_add i xs)"
  by (simp add: set_add_def)

lemma scan_error_sample [simp]:
  "scan q [\<lparr>filename = f, timestamp = t, phase = Loading,
            annotations = \<lparr>blankScreen = None, ann_hasContent = hc, ann_loadingIndicators = li,
                           ann_hasErrors = True, ann_errorMessages = ms, isKeyFrame = True\<rparr>\<rparr>]
     = (if q \<le> 2 then Some q else None)"
  by (auto simp: error_sample_def)

lemma scan_loading_sample:
  "0 < q \<Longrightarrow> scan q [\<lparr>filename = f, timestamp = t, phase = Loading, annotations = a\<rparr>]
     = (if q \<le> 2 then Some q else None)"
  by auto

lemma progress_cases:
  "main s = Launching \<Longrightarrow> progress (main s) = 0"
  "main s = CreatingDirectory \<Longrightarrow> progress (main s) = 0"
  "main s = Instrumenting \<Longrightarrow> progress (main s) = 0"
  "main s = Navigating \<Longrightarrow> progress (main s) = 0"
  "main s = Racing \<Longrightarrow> progress (main s) = 1"
  "main s = Saving m \<Longrightarrow> progress (main s) = 2"
  by simp_all

lemma progress_range: "progress pc \<le> 4"
  by (cases pc rule: progress.cases) simp_all

lemma step_shaped:
  assumes "step e s = Some s'" "shaped s"
  shows "shaped s'"
proof -
  from assms(1) have d: "dispatch e s = Some s'" by (simp add: step_dispatch)
  from d show ?thesis
    using assms(2)
  proof (cases rule: dispatch_cases)
    case (shot_done ph sh a)
    then show ?thesis
      using assms(2)
      by (cases ph)
         (simp_all add: shaped_def manifest_of_def finish_shot_def Let_def scan_append
            error_sample_def)
  next
    case (loop_shot_done sh a)
    then have "progress (main s) = 1 \<or> progress (main s) = 2 \<or> progress (main s) = 3"
      using assms(2) progress_range [of "main s"] by (auto simp: shaped_def)
    with loop_shot_done show ?thesis
      using assms(2)
      by (auto simp: shaped_def manifest_of_def finish_shot_def Let_def scan_append)
  next
    case (error_stored k)
    have "progress (main s) \<le> 3"
      using assms(2) progress_range [of "main s"] by (auto simp: shaped_def)
    with error_stored show ?thesis
      using assms(2)
      by (auto simp: shaped_def manifest_of_def finish_error_shot_def scan_append error_sample_def)
  next
    case (metrics_final m)
    then show ?thesis
      using assms(2)
      by (simp add: shaped_def manifest_of_def generateManifest_def)
  qed (simp_all add: shaped_def manifest_of_def fail_with_def begin_shot_def
         begin_error_shot_def loop_check_def Let_def store_metrics_def split: option.splits)
qed

lemma run_shaped: "run es s = Some s' \<Longrightarrow> shaped s \<Longrightarrow> shaped s'"
proof (induction es arbitrary: s)
  case Nil
  then show ?case by simp
next
  case (Cons e es)
  then show ?case by (auto split: option.splits dest: step_shaped)
qed

lemma new_capturer_shaped: "shaped (new_capturer cfg)"
  by (simp add: shaped_def new_capturer_def manifest_of_def)

lemma scan2_all_loading:
  "scan 2 xs = Some q \<Longrightarrow> list_all (\<lambda>x. phase x = Loading) xs"
  by (induction xs) (simp_all split: if_splits)

lemma scan1_final:
  "scan 1 xs = Some 2 \<Longrightarrow>
   \<exists>mid f post. xs = mid @ [f] @ post \<and> list_all (\<lambda>x. phase x = Loading) mid
      \<and> phase f = Final \<and> list_all (\<lambda>x. phase x = Loading) post"
proof (induction xs)
  case Nil
  then show ?case by simp
next
  case (Cons x xs)
  show ?case
  proof (cases "phase x = Loading")
    case True
    with Cons.prems have "scan 1 xs = Some 2" by simp
    from Cons.IH [OF this] obtain mid f post where
      "xs = mid @ [f] @ post" "list_all (\<lambda>x. phase x = Loading) mid"
      "phase f = Final" "list_all (\<lambda>x. phase x = Loading) post" by blast
    with True have "x # xs = (x # mid) @ [f] @ post \<and> list_all (\<lambda>x. phase x = Loading) (x # mid)
      \<and> phase f = Final \<and> list_all (\<lambda>x. phase x = Loading) post" by simp
    then show ?thesis by blast
  next
    case False
    with Cons.prems have f: "phase x = Final" and r: "scan 2 xs = Some 2"
      by (simp_all split: if_splits)
    from r have "list_all (\<lambda>x. phase x = Loading) xs" by (rule scan2_all_loading)
    with f have "x # xs = [] @ [x] @ xs \<and> list_all (\<lambda>x. phase x = Loading) []
      \<and> phase x = Final \<and> list_all (\<lambda>x. phase x = Loading) xs" by simp
    then show ?thesis by blast
  qed
qed

lemma scan0_initial:
  "scan 0 xs = Some 2 \<Longrightarrow>
   \<exists>pre i rest. xs = pre @ [i] @ rest \<and> list_all error_sample pre
      \<and> phase i = Initial \<and> isKeyFrame (annotations i) \<and> scan 1 rest = Some 2"
proof (induction xs)
  case Nil
  then show ?case by simp
next
  case (Cons x xs)
  show ?case
  proof (cases "error_sample x")
    case True
    with Cons.prems have "scan 0 xs = Some 2" by simp
    from Cons.IH [OF this] obtain pre i rest where
      "xs = pre @ [i] @ rest" "list_all error_sample pre" "phase i = Initial"
      "isKeyFrame (annotations i)" "scan 1 rest = Some 2" by blast
    with True have "x # xs = (x # pre) @ [i] @ rest \<and> list_all error_sample (x # pre)
      \<and> phase i = Initial \<and> isKeyFrame (annotations i) \<and> scan 1 rest = Some 2" by simp
    then show ?thesis by blast
  next
    case False
    with Cons.prems have "phase x = Initial" "isKeyFrame (annotations x)" "scan 1 xs = Some 2"
      by (simp_all split: if_splits)
    then have "x # xs = [] @ [x] @ xs \<and> list_all error_sample []
      \<and> phase x = Initial \<and> isKeyFrame (annotations x) \<and> scan 1 xs = Some 2" by simp
    then show ?thesis by blast
  qed
qed

lemma scan0_hd_key_frame:
  "scan 0 xs = Some 2 \<Longrightarrow> xs \<noteq> [] \<and> isKeyFrame (annotations (hd xs))"
  by (cases xs) (auto simp: error_sample_def split: if_splits)

lemma sequence_structure:
  assumes "scan 0 xs = Some 2"
  shows "\<exists>pre i mid f post.
           xs = pre @ [i] @ mid @ [f] @ post
           \<and> list_all error_sample pre
           \<and> phase i = Initial \<and> isKeyFrame (annotations i)
           \<and> list_all (\<lambda>x. phase x = Loading) mid
           \<and> phase f = Final
           \<and> list_all (\<lambda>x. phase x = Loading) post"
proof -
  from scan0_initial [OF assms] obtain pre i rest where
    a: "xs = pre @ [i] @ rest" "list_all error_sample pre" "phase i = Initial"
       "isKeyFrame (annotations i)" and r: "scan 1 rest = Some 2" by blast
  from scan1_final [OF r] obtain mid f post where
    b: "rest = mid @ [f] @ post" "list_all (\<lambda>x. phase x = Loading) mid"
       "phase f = Final" "list_all (\<lambda>x. phase x = Loading) post" by blast
  from a b show ?thesis by blast
qed







text \<open>Whatever the configuration says, no screenshot of a session is a full-page one.\<close>

lemma screenshots_never_full_page:
  assumes "captureSequence cfg events = Some s"
  shows "list_all (\<lambda>c. \<not> asks_full_page c) (browserCalls s)"
proof -
  have "no_full_page (new_capturer cfg)"
    by (simp add: no_full_page_def new_capturer_def)
  with assms [unfolded captureSequence_def] have "no_full_page s" by (rule run_no_full_page)
  then show ?thesis by (simp add: no_full_page_def)
qed

text \<open>The key-frame list is sorted and holds the file name of the last screenshot.\<close>

lemma identifyKeyFrames_sorted_and_last:
  "sorted (identifyKeyFrames s)
   \<and> (screenshots s \<noteq> [] \<longrightarrow> filename (last (screenshots s)) \<in> set (identifyKeyFrames s))"
proof (intro conjI impI)
  show "sorted (identifyKeyFrames s)" by (simp add: identifyKeyFrames_def Let_def)
next
  assume ne: "screenshots s \<noteq> []"
  show "filename (last (screenshots s)) \<in> set (identifyKeyFrames s)"
  proof (cases "length (screenshots s) - 1 \<in> set (keyFrameIndices s)")
    case True
    have "length (screenshots s) - 1 < length (screenshots s)" using ne by simp
    moreover have "screenshots s ! (length (screenshots s) - 1) = last (screenshots s)"
      using ne by (simp add: last_conv_nth)
    ultimately show ?thesis
      using True by (auto simp: identifyKeyFrames_def Let_def intro!: bexI [of _ "length (screenshots s) - 1"])
  next
    case False
    then show ?thesis using ne by (simp add: identifyKeyFrames_def Let_def)
  qed
qed




subsection \<open>The example sessions, evaluated\<close>

lemmas session_eval =
  captureSequence_def manifest_of_def step_def exited_def new_capturer_def
  with_defaults_def the_duration_def spread_over_def read_property_def js_less_def
  on_launched_def on_directory_def on_instrumented_def on_navigated_def on_shot_done_def
  on_metrics_done_def on_race_over_def on_saved_def on_detected_def on_wake_def
  on_loop_shot_done_def on_loop_metrics_done_def on_page_error_def on_error_shot_done_def
  handlers_registered_def
  fail_with_def begin_shot_def finish_shot_def store_metrics_def begin_error_shot_def
  finish_error_shot_def loop_check_def loop_continues_def browser_screenshot_def set_add_def
  generateManifest_def identifyKeyFrames_def detectIssues_def analyzePerformanceMetrics_def
  compareAnalyses_def calculateTextSimilarity_def hundred_minus_def js_gt_def
  decimal.simps number_text_def digit_char_def padStart_def
  spinner_page_def loaded_page_def full_page_config_def
  Let_def closes_def numeral_2_eq_2

text \<open>When the detection of each example session reports.\<close>

lemma detection_reports:
  "detection_report (full_page_config 3000 1000) (idle_after 400) 5040 = Detected True 8040"
  "detection_report (full_page_config 1000 2000) (idle_after 1060) 5040 = Detected True 6100"
  "detection_report (full_page_config 1000 2000) busy_page 5040 = Detected True 7040"
  "detection_report (full_page_config 1000 1000) busy_page 5040 = Detected True 7040"
  by (simp_all add: detection_report_def detector_for_def createFromConfig_def wait_for_def
      with_defaults_def the_duration_def spread_over_def read_property_def full_page_config_def
      idle_after_def busy_page_def Let_def)



lemma overlapping_session_result:
  "map_option (\<lambda>s. map_option (\<lambda>m. (map filename (screenshots_of m), keyFrames m))
                       (manifest_of s))
      (captureSequence (full_page_config 1000 1000) overlapping_session)
   = Some (Some ([''000-0ms.png'', ''001-1040ms.png'', ''001-1040ms.png''],
                 [''000-0ms.png'', ''001-1040ms.png'', ''001-1040ms.png'']))"
  by (simp add: session_eval overlapping_session_def)

lemma failing_page_session_result:
  "map_option (\<lambda>s. (browserCalls s,
                     map_option (\<lambda>m. map (\<lambda>x. (filename x, phase x)) (screenshots_of m))
                       (manifest_of s)))
      (captureSequence (full_page_config 1000 2000) failing_page_session)
   = Some ([Launch, Goto ''http://localhost:3000'',
            PageScreenshot ''shots/000-4990ms-ERROR.png'' False,
            PageScreenshot ''shots/001-0ms.png'' False,
            PageScreenshot ''shots/002-1040ms.png'' False,
            PageScreenshot ''shots/002-1050ms-ERROR.png'' False,
            Close],
           Some [(''000-4990ms-ERROR.png'', Loading), (''001-0ms.png'', Initial),
                 (''002-1040ms.png'', Final), (''002-1050ms-ERROR.png'', Loading)])"
  by (simp add: session_eval failing_page_session_def)


lemma late_detection_session_result:
  "map_option (\<lambda>s. map_option (\<lambda>m. (issues m, loadingDuration m)) (manifest_of s))
      (captureSequence (full_page_config 1000 2000) late_detection_session)
   = Some (Some ([], Some (Num 1100)))"
  unfolding late_detection_session_def detection_reports
  by (simp add: session_eval)



subsection \<open>The capture sequence: what holds in every session\<close>

text \<open>
  The screenshot sequence of a manifest is not empty and begins with a key frame. It
  consists of the error samples stored before the initial sample, the initial sample,
  samples of phase loading, the final sample, and the samples of phase loading that were
  stored after the final one.
\<close>

lemma screenshot_sequence_structure:
  assumes "captureSequence cfg events = Some s" and "manifest_of s = Some m"
  shows "screenshots_of m \<noteq> []
       \<and> isKeyFrame (annotations (hd (screenshots_of m)))
       \<and> (\<exists>pre i mid f post.
             screenshots_of m = pre @ [i] @ mid @ [f] @ post
             \<and> list_all error_sample pre
             \<and> phase i = Initial \<and> isKeyFrame (annotations i)
             \<and> list_all (\<lambda>x. phase x = Loading) mid
             \<and> phase f = Final
             \<and> list_all (\<lambda>x. phase x = Loading) post)"
proof -
  have "shaped s"
    using assms(1) [unfolded captureSequence_def] new_capturer_shaped by (rule run_shaped)
  with assms(2) have "scan 0 (screenshots_of m) = Some 2" by (simp add: shaped_def)
  then show ?thesis
    using scan0_hd_key_frame sequence_structure by blast
qed

text \<open>
  In a session in which the detection never reports completion, the manifest records the
  timeout and gives the configured duration as loading duration.
\<close>

lemma timeout_reported_when_never_detected:
  assumes "captureSequence cfg events = Some s" and "manifest_of s = Some m"
    and "list_all (\<lambda>e. \<not> reports_completion e) events"
  shows "''Loading did not complete within timeout'' \<in> set (issues m)
       \<and> loadingDuration m = the_duration (with_defaults cfg)"
proof -
  have "undetected s"
    using assms(1) [unfolded captureSequence_def] new_capturer_undetected assms(3)
    by (rule run_undetected)
  moreover have "config s = with_defaults cfg"
    using run_config [OF assms(1) [unfolded captureSequence_def]]
    by (simp add: new_capturer_def)
  ultimately show ?thesis
    using assms(2) by (simp add: undetected_def timeout_message_def)
qed


subsection \<open>The capture sequence: the claims\<close>



text \<open>
  Claim C3 asks that the key-frame list of the manifest has no duplicates. In the session in
  which the interval loop and the main flow both begin a sample in the millisecond in which
  the two timers fire, both samples take index 1 and the same file name; the first one
  stored is a key frame, the second one is the last screenshot, and the list holds the name
  twice.
\<close>

theorem overlapping_samples_duplicate_key_frame:
  "map_option (map filename \<circ> screenshots_of)
      (session_manifest (full_page_config 1000 1000) overlapping_session)
     = Some [''000-0ms.png'', ''001-1040ms.png'', ''001-1040ms.png'']
   \<and> map_option keyFrames (session_manifest (full_page_config 1000 1000) overlapping_session)
     = Some [''000-0ms.png'', ''001-1040ms.png'', ''001-1040ms.png'']"
  using overlapping_session_result
  by (auto simp: session_manifest_def split: option.splits)

theorem overlapping_samples_witness:
  "map_option (distinct \<circ> keyFrames)
      (session_manifest (full_page_config 1000 1000) overlapping_session) = Some False"
  using overlapping_samples_duplicate_key_frame
  by (auto simp: map_option_case split: option.splits)

text \<open>
  Claim C4 asks that the first screenshot of the manifest has phase initial and is a key
  frame and that the last one has phase final, also when error samples were captured. In
  the session whose page throws an error during the navigation and another one during the
  final capture, the first element of the manifest's sequence is the first error sample and
  the last element is the second one, both of phase loading; the second error sample also
  takes the index of the final sample. The detection plays no part: on this page it reports
  only at 7040, after the manifest has been saved.
\<close>

theorem error_samples_first_and_last:
  "map_option (map (\<lambda>x. (filename x, phase x)) \<circ> screenshots_of)
      (session_manifest (full_page_config 1000 2000) failing_page_session)
     = Some [(''000-4990ms-ERROR.png'', Loading), (''001-0ms.png'', Initial),
             (''002-1040ms.png'', Final), (''002-1050ms-ERROR.png'', Loading)]
   \<and> detection_report (full_page_config 1000 2000) busy_page 5040 = Detected True 7040"
  using failing_page_session_result detection_reports(3)
  by (auto simp: session_manifest_def split: option.splits)

theorem error_samples_witness:
  "map_option (\<lambda>m. (phase (hd (screenshots_of m)), phase (last (screenshots_of m))))
      (session_manifest (full_page_config 1000 2000) failing_page_session)
     = Some (Loading, Loading)"
proof -
  from error_samples_first_and_last obtain m where
    m: "session_manifest (full_page_config 1000 2000) failing_page_session = Some m"
    and s: "map (\<lambda>x. (filename x, phase x)) (screenshots_of m)
              = [(''000-4990ms-ERROR.png'', Loading), (''001-0ms.png'', Initial),
                 (''002-1040ms.png'', Final), (''002-1050ms-ERROR.png'', Loading)]"
    by auto
  from s obtain a b c d where "screenshots_of m = [a, b, c, d]"
    and "phase a = Loading" and "phase d = Loading"
    by (auto simp: map_eq_Cons_conv)
  with m show ?thesis by simp
qed

text \<open>
  Claim C5 asks for the timeout message and for a loading duration equal to the configured
  duration whenever the detector has not reported before the deadline. In the session of
  1000 ms on a page whose network becomes idle 1060 ms after the detection has started, the
  detector reports at 6100, after the deadline timer has fired at 6040 and while the final
  sample is being captured: no completion was reported before the deadline, yet the
  manifest holds no timeout message, and its loading duration is the late completion time
  of 1100 ms, not the configured 1000 ms.
\<close>

theorem late_detection_hides_timeout:
  "detection_report (full_page_config 1000 2000) (idle_after 1060) 5040 = Detected True 6100
   \<and> list_all (\<lambda>e. \<not> reports_completion e)
        (takeWhile (\<lambda>e. e \<noteq> RaceOver 6040) late_detection_session)
   \<and> the_duration (with_defaults (full_page_config 1000 2000)) = Some (Num 1000)
   \<and> map_option issues (session_manifest (full_page_config 1000 2000) late_detection_session)
       = Some []
   \<and> map_option loadingDuration
        (session_manifest (full_page_config 1000 2000) late_detection_session)
       = Some (Some (Num 1100))"
proof -
  have "session_manifest (full_page_config 1000 2000) late_detection_session \<noteq> None
        \<and> map_option issues (session_manifest (full_page_config 1000 2000) late_detection_session)
              = Some []
        \<and> map_option loadingDuration
              (session_manifest (full_page_config 1000 2000) late_detection_session)
            = Some (Some (Num 1100))"
    using late_detection_session_result
    by (auto simp: session_manifest_def split: option.splits)
  moreover have "list_all (\<lambda>e. \<not> reports_completion e)
        (takeWhile (\<lambda>e. e \<noteq> RaceOver 6040) late_detection_session)"
    by (simp add: late_detection_session_def)
  moreover have "the_duration (with_defaults (full_page_config 1000 2000)) = Some (Num 1000)"
    by (simp add: the_duration_def with_defaults_def full_page_config_def spread_over_def
        read_property_def)
  ultimately show ?thesis
    using detection_reports(2) by simp
qed

theorem late_detection_witness:
  "map_option (\<lambda>m. (''Loading did not complete within timeout'' \<in> set (issues m),
                     loadingDuration m = the_duration (with_defaults (full_page_config 1000 2000))))
      (session_manifest (full_page_config 1000 2000) late_detection_session)
     = Some (False, False)"
  using late_detection_hides_timeout
  by (auto simp: map_option_case split: option.splits)

text \<open>
  Claim C8 asks that every screenshot is requested at the session's configured fidelity. In
  the session of a configuration that asks for full-page screenshots, the initial sample,
  the final sample and both error samples are requested with \<open>fullPage = false\<close>.
\<close>

theorem full_page_flag_not_passed:
  "fullPage (with_defaults (full_page_config 1000 2000)) = Some True
   \<and> map_option browserCalls
        (captureSequence (full_page_config 1000 2000) failing_page_session)
     = Some [Launch, Goto ''http://localhost:3000'',
             PageScreenshot ''shots/000-4990ms-ERROR.png'' False,
             PageScreenshot ''shots/001-0ms.png'' False,
             PageScreenshot ''shots/002-1040ms.png'' False,
             PageScreenshot ''shots/002-1050ms-ERROR.png'' False,
             Close]"
  using failing_page_session_result
  by (auto simp: with_defaults_def full_page_config_def)

theorem full_page_flag_witness:
  "map_option (list_all (\<lambda>c. \<not> asks_full_page c) \<circ> browserCalls)
      (captureSequence (full_page_config 1000 2000) failing_page_session) = Some True"
  using full_page_flag_not_passed
  by (auto simp: map_option_case split: option.splits)



end
